theory Spec2Isabelle
  imports Main "HOL-Library.Word"
begin

chapter \<open>The embedding\<close>

section \<open>Errors\<close>

text \<open>
  Every exception the embedded functions raise is a value of this type; a function that
  can raise returns \<open>error + 'a\<close> with the exception on the left.
\<close>

datatype error =
    RuntimeError string
  | RuntimeWarning string
  | KeyError
  | IndexError
  | ValueError
  | OverflowError
  | AttributeError
  | TypeError
  | NetworkXUnfeasible

section \<open>The 'index' logical type (storage/netcdfplus.py, create_type_delegate)\<close>

text \<open>
  A value handed to a getter or setter either has \<open>__iter__\<close> (a list, a numpy vector)
  or is a scalar; the lambdas of \<open>create_type_delegate\<close> branch on
  \<open>hasattr(v, '__iter__')\<close>.
\<close>

datatype 'a arg = Scalar 'a | Iter "'a list"

text \<open>
  \<^verbatim>\<open>setter = lambda v: [-1 if w is None else w for w in v]
                 if hasattr(v, '__iter__') else -1 if v is None else v\<close>
\<close>

fun index_setter :: "int option arg \<Rightarrow> int arg" where
  "index_setter (Iter v) = Iter (map (\<lambda>w. case w of None \<Rightarrow> - 1 | Some n \<Rightarrow> n) v)"
| "index_setter (Scalar v) = Scalar (case v of None \<Rightarrow> - 1 | Some n \<Rightarrow> n)"

text \<open>
  \<^verbatim>\<open>getter = lambda v: [None if int(w) < 0 else int(w) for w in v.tolist()]
                 if hasattr(v, '__iter__') else None if int(v) < 0 else int(v)\<close>
  The argument is what the variable returned, already read as Python integers.
\<close>

fun index_getter :: "int arg \<Rightarrow> int option arg" where
  "index_getter (Iter v) = Iter (map (\<lambda>w. if w < 0 then None else Some w) v)"
| "index_getter (Scalar v) = Scalar (if v < 0 then None else Some v)"

text \<open>
  The physical type of an 'index' variable is \<open>np.int32\<close>
  (\<open>_type_conversion['index']\<close>), so a cell is a 32-bit word read as two's complement.
  Writing a Python integer into such a variable goes through \<open>numpy.array(data, dtype)\<close>:
  with numpy 1.x on an LP64 platform an integer that fits a C long is cast to 32 bits
  with wrap-around, and a larger one raises \<open>OverflowError\<close>.
\<close>

type_synonym int32 = "32 word"

definition to_int32 :: "int \<Rightarrow> error + int32" where
  "to_int32 n = (if - (2 ^ 63) \<le> n \<and> n < 2 ^ 63 then Inr (word_of_int n) else Inl OverflowError)"

fun to_int32_list :: "int list \<Rightarrow> error + int32 list" where
  "to_int32_list [] = Inr []"
| "to_int32_list (n # ns) =
     (case to_int32 n of
        Inl e \<Rightarrow> Inl e
      | Inr w \<Rightarrow> (case to_int32_list ns of Inl e \<Rightarrow> Inl e | Inr ws \<Rightarrow> Inr (w # ws)))"

fun to_int32_arg :: "int arg \<Rightarrow> error + int32 arg" where
  "to_int32_arg (Scalar n) = (case to_int32 n of Inl e \<Rightarrow> Inl e | Inr w \<Rightarrow> Inr (Scalar w))"
| "to_int32_arg (Iter ns) = (case to_int32_list ns of Inl e \<Rightarrow> Inl e | Inr ws \<Rightarrow> Inr (Iter ws))"

text \<open>
  \<open>ValueDelegate\<close> for an 'index' variable. The variable maps a row key to its cell (a
  scalar or, for a variable-length dimension, a vector of int32).
  \<^verbatim>\<open>def __setitem__(self, key, value): self.variable[key] = self.setter(value)
  def __getitem__(self, key): return self.getter(self.variable[key])\<close>
  Reading a key that was never written is an \<open>IndexError\<close>.
\<close>

type_synonym index_variable = "int \<rightharpoonup> int32 arg"

definition index_setitem :: "index_variable \<Rightarrow> int \<Rightarrow> int option arg \<Rightarrow> error + index_variable" where
  "index_setitem variable key v =
     (case to_int32_arg (index_setter v) of
        Inl e \<Rightarrow> Inl e
      | Inr cell \<Rightarrow> Inr (variable(key \<mapsto> cell)))"

definition index_getitem :: "index_variable \<Rightarrow> int \<Rightarrow> error + int option arg" where
  "index_getitem variable key =
     (case variable key of
        None \<Rightarrow> Inl IndexError
      | Some cell \<Rightarrow> Inr (index_getter (map_arg sint cell)))"

text \<open>Read after write: store \<open>v\<close> under \<open>key\<close>, then read \<open>key\<close> back.\<close>

definition index_read_after_write :: "index_variable \<Rightarrow> int \<Rightarrow> int option arg \<Rightarrow> error + int option arg" where
  "index_read_after_write variable key v =
     (case index_setitem variable key v of
        Inl e \<Rightarrow> Inl e
      | Inr variable' \<Rightarrow> index_getitem variable' key)"

text \<open>
  The values of an index: the absent value and the non-negative integers; and those of
  them that an int32 cell can hold.
\<close>

definition index_value :: "int option \<Rightarrow> bool" where
  "index_value v = (case v of None \<Rightarrow> True | Some n \<Rightarrow> 0 \<le> n)"

definition int32_index_value :: "int option \<Rightarrow> bool" where
  "int32_index_value v = (case v of None \<Rightarrow> True | Some n \<Rightarrow> 0 \<le> n \<and> n < 2 ^ 31)"

section \<open>Lazy proxies (netcdfplus/proxy.py, LoaderProxy)\<close>

text \<open>
  Python compares with \<open>is\<close> and keeps weak references, so objects live in a heap and
  are named by their address. A \<open>LoaderProxy\<close> has the slots \<open>_idx\<close>, \<open>_store\<close> and
  \<open>_subject\<close>; \<open>_subject\<close> is \<open>None\<close> or a weak reference, kept here as the address it
  points to. An object store carries its \<open>content_class\<close>. Every other object is an
  \<open>Instance\<close> of its class. An address with no object is one that was never allocated
  or whose object has been collected: dereferencing a weak reference to it gives \<open>None\<close>.
\<close>

type_synonym addr = nat

datatype pyobject =
    LoaderProxy (p_idx: int) (p_store: addr) (p_subject: "addr option")
  | ObjectStore (content_class: string)
  | Instance (instance_class: string)

type_synonym heap = "addr \<rightharpoonup> pyobject"

text \<open>A Python value as far as the proxy sees it: \<open>None\<close> or a reference to an object.\<close>

datatype pyref = PyNone | Ref addr

text \<open>
  \<open>self._store[self._idx]\<close> is the store's \<open>__getitem__\<close>, which is not part of
  proxy.py: it is the parameter \<open>ld\<close>, a function of the store's address, the index
  and the heap that returns a value or raises, and may allocate.
\<close>

type_synonym loader = "addr \<Rightarrow> int \<Rightarrow> heap \<Rightarrow> (error + pyref) \<times> heap"

text \<open>\<^verbatim>\<open>def _load_(self): return self._store[self._idx]\<close>\<close>

definition LoaderProxy_load :: "loader \<Rightarrow> addr \<Rightarrow> heap \<Rightarrow> (error + pyref) \<times> heap" where
  "LoaderProxy_load ld self h =
     (case h self of
        Some (LoaderProxy i s sub) \<Rightarrow> ld s i h
      | _ \<Rightarrow> (Inl AttributeError, h))"

text \<open>Calling a weak reference: the object, or \<open>None\<close> when it is gone.\<close>

definition weakref_call :: "heap \<Rightarrow> addr \<Rightarrow> pyref" where
  "weakref_call h r = (case h r of None \<Rightarrow> PyNone | Some _ \<Rightarrow> Ref r)"

text \<open>
  \<^verbatim>\<open>@property
  def __subject__(self):
      if self._subject is not None:
          obj = self._subject()
          if obj is not None:
              return obj
      ref = self._load_()
      if ref is None:
          return None
      self._subject = weakref.ref(ref)
      return ref\<close>
\<close>

definition memoized_subject :: "heap \<Rightarrow> addr option \<Rightarrow> pyref" where
  "memoized_subject h sub = (case sub of None \<Rightarrow> PyNone | Some r \<Rightarrow> weakref_call h r)"

definition LoaderProxy_subject :: "loader \<Rightarrow> addr \<Rightarrow> heap \<Rightarrow> (error + pyref) \<times> heap" where
  "LoaderProxy_subject ld self h =
     (case h self of
        Some (LoaderProxy i s sub) \<Rightarrow>
          (case memoized_subject h sub of
             Ref obj \<Rightarrow> (Inr (Ref obj), h)
           | PyNone \<Rightarrow>
               (case LoaderProxy_load ld self h of
                  (Inl e, h') \<Rightarrow> (Inl e, h')
                | (Inr PyNone, h') \<Rightarrow> (Inr PyNone, h')
                | (Inr (Ref r), h') \<Rightarrow> (Inr (Ref r), h'(self \<mapsto> LoaderProxy i s (Some r)))))
      | _ \<Rightarrow> (Inl AttributeError, h))"

text \<open>
  \<^verbatim>\<open>def __eq__(self, other):
      if self is other:
          return True
      elif type(other) is LoaderProxy:
          if self._idx == other._idx and self._store is other._store:
              return True
      elif self.__subject__ is other:
          return True
      return False\<close>
\<close>

definition type_is_LoaderProxy :: "heap \<Rightarrow> pyref \<Rightarrow> bool" where
  "type_is_LoaderProxy h v =
     (case v of
        PyNone \<Rightarrow> False
      | Ref b \<Rightarrow> (case h b of Some (LoaderProxy _ _ _) \<Rightarrow> True | _ \<Rightarrow> False))"

definition LoaderProxy_eq :: "loader \<Rightarrow> addr \<Rightarrow> pyref \<Rightarrow> heap \<Rightarrow> (error + bool) \<times> heap" where
  "LoaderProxy_eq ld self other h =
     (case h self of
        Some (LoaderProxy i s sub) \<Rightarrow>
          if other = Ref self then (Inr True, h)
          else if type_is_LoaderProxy h other then
            (case other of
               Ref b \<Rightarrow>
                 (case h b of
                    Some (LoaderProxy j t sub') \<Rightarrow> (Inr (i = j \<and> s = t), h)
                  | _ \<Rightarrow> (Inr False, h))
             | PyNone \<Rightarrow> (Inr False, h))
          else
            (case LoaderProxy_subject ld self h of
               (Inl e, h') \<Rightarrow> (Inl e, h')
             | (Inr v, h') \<Rightarrow> (Inr (v = other), h'))
      | _ \<Rightarrow> (Inl AttributeError, h))"


text \<open>Resolving the same proxy \<open>n\<close> times in a row: the results, in order, and the heap.\<close>

fun resolve_times :: "loader \<Rightarrow> addr \<Rightarrow> nat \<Rightarrow> heap \<Rightarrow> (error + pyref) list \<times> heap" where
  "resolve_times ld self 0 h = ([], h)"
| "resolve_times ld self (Suc n) h =
     (case LoaderProxy_subject ld self h of
        (r, h') \<Rightarrow> (case resolve_times ld self n h' of (rs, h'') \<Rightarrow> (r # rs, h'')))"

section \<open>Lazy loaders (new/serialization.py, GenericLazyLoader)\<close>

text \<open>
  A \<open>GenericLazyLoader\<close> keeps its uuid and \<open>_loaded_object\<close>, a strong reference.
  \<open>self.storage.load\<close> is not part of the module: it is the parameter \<open>sload\<close>, acting
  on a storage state of any type.
  \<^verbatim>\<open>def load(self):
      if self._loaded_object is None:
          self._loaded_object = self.storage.load(self.__uuid__)
      if self._loaded_object is None:
          raise RuntimeError("UUID not found in storage: " + str(self.__uuid__))
      return self._loaded_object\<close>
\<close>

record lazy_loader =
  ll_uuid :: string
  loaded_object :: pyref

definition GenericLazyLoader_load ::
  "(string \<Rightarrow> 's \<Rightarrow> pyref \<times> 's) \<Rightarrow> lazy_loader \<Rightarrow> 's \<Rightarrow> (error + pyref) \<times> lazy_loader \<times> 's" where
  "GenericLazyLoader_load sload self st =
     (case (if loaded_object self = PyNone
            then (case sload (ll_uuid self) st of (r, st') \<Rightarrow> (self\<lparr>loaded_object := r\<rparr>, st'))
            else (self, st)) of
        (self', st') \<Rightarrow>
          if loaded_object self' = PyNone
          then (Inl (RuntimeError (''UUID not found in storage: '' @ ll_uuid self')), self', st')
          else (Inr (loaded_object self'), self', st'))"

fun load_times ::
  "(string \<Rightarrow> 's \<Rightarrow> pyref \<times> 's) \<Rightarrow> nat \<Rightarrow> lazy_loader \<Rightarrow> 's \<Rightarrow> (error + pyref) list \<times> lazy_loader \<times> 's" where
  "load_times sload 0 self st = ([], self, st)"
| "load_times sload (Suc n) self st =
     (case GenericLazyLoader_load sload self st of
        (r, self', st') \<Rightarrow>
          (case load_times sload n self' st' of (rs, self'', st'') \<Rightarrow> (r # rs, self'', st'')))"

text \<open>
  A small heap to run the proxy on: a store of snapshots at address 0, two proxies for
  index 3 of that store (one unresolved, one resolved to the snapshot at address 5), a
  proxy for index 4, and a loader that always answers with the snapshot at address 5.
\<close>

definition example_heap :: heap where
  "example_heap =
     [0 \<mapsto> ObjectStore ''Snapshot'',
      1 \<mapsto> LoaderProxy 3 0 None,
      2 \<mapsto> LoaderProxy 3 0 (Some 5),
      4 \<mapsto> LoaderProxy 4 0 None,
      5 \<mapsto> Instance ''Snapshot'']"

definition example_loader :: loader where
  "example_loader s i h = (Inr (Ref 5), h)"

section \<open>Python lists\<close>

text \<open>
  A list comprehension whose body can raise: the elements are computed from left to
  right and the first exception ends it.
\<close>

fun comprehension :: "('a \<Rightarrow> error + 'b) \<Rightarrow> 'a list \<Rightarrow> error + 'b list" where
  "comprehension f [] = Inr []"
| "comprehension f (x # xs) =
     (case f x of
        Inl e \<Rightarrow> Inl e
      | Inr y \<Rightarrow> (case comprehension f xs of Inl e \<Rightarrow> Inl e | Inr ys \<Rightarrow> Inr (y # ys)))"

text \<open>\<open>xs.index(x)\<close>: the first position of \<open>x\<close>, \<open>ValueError\<close> when there is none.\<close>

fun list_index :: "'a list \<Rightarrow> 'a \<Rightarrow> error + nat" where
  "list_index [] x = Inl ValueError"
| "list_index (y # ys) x =
     (if y = x then Inr 0
      else (case list_index ys x of Inl e \<Rightarrow> Inl e | Inr n \<Rightarrow> Inr (Suc n)))"

text \<open>\<open>xs[n]\<close> for a position \<open>n \<ge> 0\<close>: \<open>IndexError\<close> past the end.\<close>

definition list_get :: "'a list \<Rightarrow> nat \<Rightarrow> error + 'a" where
  "list_get xs n = (if n < length xs then Inr (xs ! n) else Inl IndexError)"

text \<open>
  \<open>list(set(xs))\<close>: the distinct elements of \<open>xs\<close>. CPython lists a set in the order of
  its hash table. \<open>KeyDelegate\<close> either sorts the list or writes each of its elements
  once, so the order has no effect there, and the ascending order stands for it.
\<close>

definition list_of_set :: "int list \<Rightarrow> int list" where
  "list_of_set xs = sort (remdups xs)"

section \<open>Key delegate (storage/netcdfplus.py, NetCDFPlus.KeyDelegate)\<close>

text \<open>
  A key item is an integer or an object; an object is translated by the store's reverse
  index, a dict: \<^verbatim>\<open>item if type(item) is int else self.store.index[item]\<close>.
\<close>

datatype 'o key = IntKey int | ObjKey 'o

definition to_idx :: "('o \<rightharpoonup> int) \<Rightarrow> 'o key \<Rightarrow> error + int" where
  "to_idx index item =
     (case item of
        IntKey i \<Rightarrow> Inr i
      | ObjKey ob \<Rightarrow> (case index ob of None \<Rightarrow> Inl KeyError | Some i \<Rightarrow> Inr i))"

text \<open>
  The wrapped variable maps a row index to its cell. Reading a list of indices gives the
  cells in the order of the list and is an \<open>IndexError\<close> if one of them was never
  written; assigning a list of cells to a list of indices writes them pairwise.
\<close>

definition variable_get :: "(int \<rightharpoonup> 'c) \<Rightarrow> int \<Rightarrow> error + 'c" where
  "variable_get variable i = (case variable i of None \<Rightarrow> Inl IndexError | Some c \<Rightarrow> Inr c)"

definition variable_get_list :: "(int \<rightharpoonup> 'c) \<Rightarrow> int list \<Rightarrow> error + 'c list" where
  "variable_get_list variable idxs = comprehension (variable_get variable) idxs"

definition variable_set_list :: "(int \<rightharpoonup> 'c) \<Rightarrow> int list \<Rightarrow> 'c list \<Rightarrow> (int \<rightharpoonup> 'c)" where
  "variable_set_list variable idxs cells = fold (\<lambda>(i, c) m. m(i \<mapsto> c)) (zip idxs cells) variable"

text \<open>
  \<^verbatim>\<open>def __getitem__(self, key):
      if hasattr(key, '__iter__'):
          idxs = [item if type(item) is int else self.store.index[item] for item in key]
          sorted_idxs = sorted(list(set(idxs)))
          sorted_values = self.variable[sorted_idxs]
          return [sorted_values[sorted_idxs.index(idx)] for idx in idxs]
      else:
          return self.variable[key if type(key) is int else self.store.index[key]]\<close>
\<close>

definition KeyDelegate_getitem ::
  "('o \<rightharpoonup> int) \<Rightarrow> (int \<rightharpoonup> 'c) \<Rightarrow> 'o key arg \<Rightarrow> error + 'c arg" where
  "KeyDelegate_getitem index variable key =
     (case key of
        Iter items \<Rightarrow>
          (case comprehension (to_idx index) items of
             Inl e \<Rightarrow> Inl e
           | Inr idxs \<Rightarrow>
               (let sorted_idxs = sort (list_of_set idxs) in
                case variable_get_list variable sorted_idxs of
                  Inl e \<Rightarrow> Inl e
                | Inr sorted_values \<Rightarrow>
                    (case comprehension
                            (\<lambda>idx. case list_index sorted_idxs idx of
                                      Inl e \<Rightarrow> Inl e
                                    | Inr n \<Rightarrow> list_get sorted_values n) idxs of
                       Inl e \<Rightarrow> Inl e
                     | Inr vs \<Rightarrow> Inr (Iter vs))))
      | Scalar item \<Rightarrow>
          (case to_idx index item of
             Inl e \<Rightarrow> Inl e
           | Inr i \<Rightarrow> (case variable_get variable i of Inl e \<Rightarrow> Inl e | Inr c \<Rightarrow> Inr (Scalar c))))"

text \<open>
  \<^verbatim>\<open>def __setitem__(self, key, value):
      if hasattr(key, '__iter__'):
          idxs = [item if type(item) is int else self.store.index[item] for item in key]
          sorted_idxs = list(set(idxs))
          sorted_values = [value[idxs.index(val)] for val in sorted_idxs]
          self.variable[sorted_idxs] = sorted_values
      else:
          self.variable[key if type(key) is int else self.store.index[key]] = value\<close>
  With a list of keys the value is indexed, which a scalar does not allow
  (\<open>TypeError\<close>); a single cell does not take a list (\<open>ValueError\<close>).
\<close>

definition KeyDelegate_setitem ::
  "('o \<rightharpoonup> int) \<Rightarrow> (int \<rightharpoonup> 'c) \<Rightarrow> 'o key arg \<Rightarrow> 'c arg \<Rightarrow> error + (int \<rightharpoonup> 'c)" where
  "KeyDelegate_setitem index variable key val =
     (case key of
        Iter items \<Rightarrow>
          (case comprehension (to_idx index) items of
             Inl e \<Rightarrow> Inl e
           | Inr idxs \<Rightarrow>
               (let sorted_idxs = list_of_set idxs in
                case val of
                  Scalar c \<Rightarrow> (if sorted_idxs = [] then Inr variable else Inl TypeError)
                | Iter cells \<Rightarrow>
                    (case comprehension
                            (\<lambda>v. case list_index idxs v of
                                    Inl e \<Rightarrow> Inl e
                                  | Inr n \<Rightarrow> list_get cells n) sorted_idxs of
                       Inl e \<Rightarrow> Inl e
                     | Inr sorted_values \<Rightarrow>
                         Inr (variable_set_list variable sorted_idxs sorted_values))))
      | Scalar item \<Rightarrow>
          (case to_idx index item of
             Inl e \<Rightarrow> Inl e
           | Inr i \<Rightarrow>
               (case val of
                  Scalar c \<Rightarrow> Inr (variable(i \<mapsto> c))
                | Iter cells \<Rightarrow> Inl ValueError)))"

text \<open>
  A variable with three rows written, a store whose reverse index knows one object, and a
  request that names row 5 twice and row 2 through the object.
\<close>

definition example_index :: "string \<rightharpoonup> int" where
  "example_index = [''sample'' \<mapsto> 2]"

definition example_variable :: "int \<rightharpoonup> int" where
  "example_variable = [0 \<mapsto> 10, 2 \<mapsto> 30, 5 \<mapsto> 50]"

definition example_items :: "string key list" where
  "example_items = [IntKey 5, ObjKey ''sample'', IntKey 5, IntKey 0]"

section \<open>Integers as text\<close>

text \<open>\<open>str(n)\<close> of a Python integer: decimal digits, a minus sign for a negative number.\<close>

definition digit_char :: "nat \<Rightarrow> char" where
  "digit_char d = ''0123456789'' ! d"

function str_nat :: "nat \<Rightarrow> string" where
  "str_nat n = (if n < 10 then [digit_char n] else str_nat (n div 10) @ [digit_char (n mod 10)])"
  by pat_completeness auto
termination
  by (relation "measure id") auto

declare str_nat.simps [simp del]

definition str_int :: "int \<Rightarrow> string" where
  "str_int i = (if i < 0 then CHR ''-'' # str_nat (nat (- i)) else str_nat (nat i))"

text \<open>
  \<open>long(s)\<close> of a string: an optional sign and at least one decimal digit give the
  number, anything else is a \<open>ValueError\<close>. (Python also accepts blanks around the
  number and a trailing \<open>L\<close>; \<open>str\<close> never writes them, and they are not read here.)
\<close>

definition digit_val :: "char \<Rightarrow> nat option" where
  "digit_val c = (case list_index ''0123456789'' c of Inl e \<Rightarrow> None | Inr d \<Rightarrow> Some d)"

fun parse_digits :: "nat \<Rightarrow> string \<Rightarrow> nat option" where
  "parse_digits acc [] = Some acc"
| "parse_digits acc (c # cs) =
     (case digit_val c of None \<Rightarrow> None | Some d \<Rightarrow> parse_digits (10 * acc + d) cs)"

definition parse_nat :: "string \<Rightarrow> nat option" where
  "parse_nat s = (if s = [] then None else parse_digits 0 s)"

definition long :: "string \<Rightarrow> error + int" where
  "long s =
     (case s of
        [] \<Rightarrow> Inl ValueError
      | c # cs \<Rightarrow>
          if c = CHR ''-'' then (case parse_nat cs of None \<Rightarrow> Inl ValueError | Some n \<Rightarrow> Inr (- int n))
          else if c = CHR ''+'' then (case parse_nat cs of None \<Rightarrow> Inl ValueError | Some n \<Rightarrow> Inr (int n))
          else (case parse_nat s of None \<Rightarrow> Inl ValueError | Some n \<Rightarrow> Inr (int n)))"

section \<open>Identity markers (new/serialization_helpers.py)\<close>

text \<open>
  The values an attribute dictionary is made of. \<open>Storable u\<close> is any object with a
  \<open>__uuid__\<close> attribute (a long); dictionaries have string keys and keep their items in
  order; lists and tuples are the iterables that are walked; a numpy array is iterable
  but left alone; strings and numbers are leaves.
\<close>

datatype pyval =
    Storable int
  | PStr string
  | PInt int
  | PNone
  | PArray "int list"
  | PDict "(string \<times> pyval) list"
  | PList "pyval list"
  | PTuple "pyval list"

text \<open>
  \<^verbatim>\<open>def get_uuid(obj): return str(obj.__uuid__)
  def encode_uuid(uuid): return "UUID(" + str(uuid) + ")"
  def decode_uuid(uuid_str): return long(uuid_str[5:-1])
  def is_uuid_string(obj):
      return (isinstance(obj, (str, unicode))
              and obj[:5] == 'UUID(' and obj[-1] == ')')\<close>
\<close>

definition get_uuid :: "int \<Rightarrow> string" where
  "get_uuid u = str_int u"

definition encode_uuid :: "string \<Rightarrow> string" where
  "encode_uuid uuid = ''UUID('' @ uuid @ '')''"

definition decode_uuid :: "string \<Rightarrow> error + int" where
  "decode_uuid uuid_str = long (butlast (drop 5 uuid_str))"

definition is_uuid_string :: "pyval \<Rightarrow> bool" where
  "is_uuid_string obj =
     (case obj of
        PStr s \<Rightarrow> take 5 s = ''UUID('' \<and> last s = CHR '')''
      | _ \<Rightarrow> False)"

text \<open>
  \<^verbatim>\<open>def replace_uuid(obj):
      replacement = obj
      if has_uuid(obj):
          replacement = encode_uuid(get_uuid(obj))
      elif is_mappable(obj):
          replacement = {k: replace_uuid(v) for (k, v) in replacement.items()}
      elif is_iterable(obj) and not is_numpy_iterable(obj):
          replace_type = type(obj)
          replacement = replace_type([replace_uuid(o) for o in obj])
      return replacement\<close>
\<close>

fun replace_uuid :: "pyval \<Rightarrow> pyval" where
  "replace_uuid (Storable u) = PStr (encode_uuid (get_uuid u))"
| "replace_uuid (PDict items) = PDict (map (\<lambda>(k, v). (k, replace_uuid v)) items)"
| "replace_uuid (PList xs) = PList (map replace_uuid xs)"
| "replace_uuid (PTuple xs) = PTuple (map replace_uuid xs)"
| "replace_uuid obj = obj"

text \<open>
  \<^verbatim>\<open>def from_dict_with_uuids(dct, existing_uuids):
      for (key, value) in dct.items():
          if is_uuid_string(value):
              # raises KeyError if object hasn't been visited
              value_obj = existing_uuids[decode_uuid(value)]
              dct[key] = value_obj
      return dct\<close>
\<close>

fun from_dict_with_uuids ::
  "(string \<times> pyval) list \<Rightarrow> (int \<rightharpoonup> pyval) \<Rightarrow> error + (string \<times> pyval) list" where
  "from_dict_with_uuids [] existing_uuids = Inr []"
| "from_dict_with_uuids ((key, val) # rest) existing_uuids =
     (case (if is_uuid_string val
            then (case val of
                    PStr s \<Rightarrow>
                      (case decode_uuid s of
                         Inl e \<Rightarrow> Inl e
                       | Inr u \<Rightarrow>
                           (case existing_uuids u of
                              None \<Rightarrow> Inl KeyError
                            | Some value_obj \<Rightarrow> Inr value_obj))
                  | _ \<Rightarrow> Inr val)
            else Inr val) of
        Inl e \<Rightarrow> Inl e
      | Inr v \<Rightarrow>
          (case from_dict_with_uuids rest existing_uuids of
             Inl e \<Rightarrow> Inl e
           | Inr rest' \<Rightarrow> Inr ((key, v) # rest')))"

text \<open>
  Encoding an attribute dictionary and decoding it again, with every embedded object
  already resolved: \<open>to_dict_with_uuids\<close> then \<open>from_dict_with_uuids\<close>.
\<close>

definition to_dict_with_uuids :: "(string \<times> pyval) list \<Rightarrow> (string \<times> pyval) list" where
  "to_dict_with_uuids dct = (case replace_uuid (PDict dct) of PDict items \<Rightarrow> items | _ \<Rightarrow> [])"

fun storables :: "pyval \<Rightarrow> int set" where
  "storables (Storable u) = {u}"
| "storables (PDict items) = (\<Union>(k, v) \<in> set items. storables v)"
| "storables (PList xs) = (\<Union>x \<in> set xs. storables x)"
| "storables (PTuple xs) = (\<Union>x \<in> set xs. storables x)"
| "storables obj = {}"

text \<open>
  A value that decoding handles at the top level of a dictionary: an object that the
  resolved map knows, or a value that holds no object and is not a marker string.
\<close>

definition top_level_value :: "(int \<rightharpoonup> pyval) \<Rightarrow> pyval \<Rightarrow> bool" where
  "top_level_value existing_uuids v =
     (case v of
        Storable u \<Rightarrow> existing_uuids u = Some (Storable u)
      | _ \<Rightarrow> storables v = {} \<and> \<not> is_uuid_string v)"

section \<open>Directed graphs (the part of networkx that serialization_helpers.py uses)\<close>

text \<open>
  \<open>nx.DiGraph\<close>: nodes and edges, each kept once, in the order they were added.
  \<open>add_edges_from\<close> adds every edge of a list; adding an edge adds its two nodes first.
\<close>

datatype 'a digraph = DiGraph (nodes: "'a list") (edges: "('a \<times> 'a) list")

definition add_node :: "'a digraph \<Rightarrow> 'a \<Rightarrow> 'a digraph" where
  "add_node g n = (if n \<in> set (nodes g) then g else DiGraph (nodes g @ [n]) (edges g))"

definition add_edge :: "'a digraph \<Rightarrow> 'a \<times> 'a \<Rightarrow> 'a digraph" where
  "add_edge g e =
     (let g' = add_node (add_node g (fst e)) (snd e)
      in if e \<in> set (edges g') then g' else DiGraph (nodes g') (edges g' @ [e]))"

definition add_edges_from :: "'a digraph \<Rightarrow> ('a \<times> 'a) list \<Rightarrow> 'a digraph" where
  "add_edges_from g es = fold (\<lambda>e g'. add_edge g' e) es g"

text \<open>
  networkx is a library, not part of the repository. Its \<open>topological_sort\<close> returns the
  nodes in an order in which every edge goes from an earlier node to a later one, and
  raises \<open>NetworkXUnfeasible\<close> when the graph has a cycle; its
  \<open>is_directed_acyclic_graph\<close> runs \<open>topological_sort\<close> and reports whether it raised.
  The library leaves open which of several admissible orders is returned. The model
  below repeatedly takes the first node, in insertion order, all of whose predecessors
  have been taken; the theorems about it establish the library's contract, and what is
  proved of the reconstruction graph rests on that contract alone.
\<close>

definition ready :: "'a digraph \<Rightarrow> 'a list \<Rightarrow> 'a \<Rightarrow> bool" where
  "ready g taken n = list_all (\<lambda>e. if snd e = n then fst e \<in> set taken else True) (edges g)"

function topological_order :: "'a digraph \<Rightarrow> 'a list \<Rightarrow> 'a list \<Rightarrow> error + 'a list" where
  "topological_order g taken todo =
     (if todo = [] then Inr taken
      else (case find (ready g taken) todo of
              None \<Rightarrow> Inl NetworkXUnfeasible
            | Some n \<Rightarrow> topological_order g (taken @ [n]) (removeAll n todo)))"
  by pat_completeness auto
termination
proof (relation "measure (\<lambda>(g, taken, todo). length todo)")
  show "wf (measure (\<lambda>(g, taken, todo). length todo))" by simp
next
  fix g :: "'a digraph" and taken todo :: "'a list" and n
  assume "find (ready g taken) todo = Some n"
  then have "n \<in> set todo" by (auto simp: find_Some_iff)
  then have "length (removeAll n todo) < length todo" by (rule length_removeAll_less)
  then show "((g, taken @ [n], removeAll n todo), (g, taken, todo))
               \<in> measure (\<lambda>(g, taken, todo). length todo)" by simp
qed

declare topological_order.simps [simp del]

definition topological_sort :: "'a digraph \<Rightarrow> error + 'a list" where
  "topological_sort g = topological_order g [] (nodes g)"

definition is_directed_acyclic_graph :: "'a digraph \<Rightarrow> bool" where
  "is_directed_acyclic_graph g = (case topological_sort g of Inl e \<Rightarrow> False | Inr order \<Rightarrow> True)"

section \<open>Reconstruction graph (new/serialization_helpers.py)\<close>

text \<open>
  \<open>dependent_uuids\<close> is a dict from an identity to the list of identities it refers to:
  an association list, its items in the order the dict yields them.
  \<^verbatim>\<open>def dependency_dag(dependent_uuids, dag=None):
      if dag is None:
          dag = nx.DiGraph()
      for from_node, to_nodes in dependent_uuids.items():
          if to_nodes:
              dag.add_edges_from([(from_node, to_node)
                                  for to_node in to_nodes])
      if not nx_dag.is_directed_acyclic_graph(dag):
          raise RuntimeError("Reconstruction DAG not acyclic?!?!")
      return dag\<close>
\<close>

definition add_dependencies :: "'a digraph \<Rightarrow> ('a \<times> 'a list) list \<Rightarrow> 'a digraph" where
  "add_dependencies dag dependent_uuids =
     fold (\<lambda>(from_node, to_nodes) g.
             if to_nodes \<noteq> [] then add_edges_from g (map (\<lambda>to_node. (from_node, to_node)) to_nodes)
             else g)
          dependent_uuids dag"

definition dependency_dag :: "('a \<times> 'a list) list \<Rightarrow> 'a digraph option \<Rightarrow> error + 'a digraph" where
  "dependency_dag dependent_uuids dag =
     (let dag' = add_dependencies (case dag of None \<Rightarrow> DiGraph [] [] | Some g \<Rightarrow> g) dependent_uuids
      in if \<not> is_directed_acyclic_graph dag'
         then Inl (RuntimeError ''Reconstruction DAG not acyclic?!?!'')
         else Inr dag')"

text \<open>
  \<^verbatim>\<open>def dag_reload_order(dag):
      return list(reversed(list(nx_dag.topological_sort(dag))))\<close>
\<close>

definition dag_reload_order :: "'a digraph \<Rightarrow> error + 'a list" where
  "dag_reload_order dag = (case topological_sort dag of Inl e \<Rightarrow> Inl e | Inr order \<Rightarrow> Inr (rev order))"

text \<open>
  The directed graph of a dependency mapping: an edge from each identity to every
  identity it refers to.
\<close>

definition dep_edges :: "('a \<times> 'a list) list \<Rightarrow> ('a \<times> 'a) set" where
  "dep_edges dependent_uuids = (\<Union>(a, bs) \<in> set dependent_uuids. Pair a ` set bs)"

text \<open>In a list, every predecessor of an element stands before it.\<close>

definition preds_first :: "('a \<times> 'a) set \<Rightarrow> 'a list \<Rightarrow> bool" where
  "preds_first E xs = (\<forall>i<length xs. \<forall>u. (u, xs ! i) \<in> E \<longrightarrow> u \<in> set (take i xs))"

text \<open>The place of the first occurrence of an element in a list.\<close>

definition first_pos :: "'a list \<Rightarrow> 'a \<Rightarrow> nat" where
  "first_pos xs x = length (takeWhile (\<lambda>y. y \<noteq> x) xs)"

text \<open>
  Two dependency mappings: the chain in which 1 refers to 2 and 2 refers to 3, and the
  cycle in which 1 and 2 refer to each other.
\<close>

definition chain_dependencies :: "(nat \<times> nat list) list" where
  "chain_dependencies = [(1, [2]), (2, [3]), (3, [])]"

definition cyclic_dependencies :: "(nat \<times> nat list) list" where
  "cyclic_dependencies = [(1, [2]), (2, [1])]"

section \<open>Discovering the identities to load (new/serialization_helpers.py)\<close>

text \<open>
  Modelled from the spec: \<open>tools.flatten_all\<close> is not among the sources. It lists the
  leaves of a structured value, walking into the values of dicts and into the elements of
  lists and tuples, as the recursive walk of the specification does.
\<close>

fun flatten_all :: "pyval \<Rightarrow> pyval list" where
  "flatten_all (PDict items) = concat (map (\<lambda>(k, v). flatten_all v) items)"
| "flatten_all (PList xs) = concat (map flatten_all xs)"
| "flatten_all (PTuple xs) = concat (map flatten_all xs)"
| "flatten_all obj = [obj]"

text \<open>
  \<^verbatim>\<open>def find_dependent_uuids(json_dct):
      dct = ujson.loads(json_dct)
      uuids = [decode_uuid(obj) for obj in flatten_all(dct)
               if is_uuid_string(obj)]
      return uuids\<close>
  \<open>ujson.loads\<close> belongs to a library: it is the parameter \<open>loads\<close>, which turns a
  text into a value or raises.
\<close>

definition find_dependent_uuids :: "(string \<Rightarrow> error + pyval) \<Rightarrow> string \<Rightarrow> error + int list" where
  "find_dependent_uuids loads json_dct =
     (case loads json_dct of
        Inl e \<Rightarrow> Inl e
      | Inr dct \<Rightarrow>
          comprehension (\<lambda>obj. case obj of PStr s \<Rightarrow> decode_uuid s | _ \<Rightarrow> Inl TypeError)
            (filter is_uuid_string (flatten_all dct)))"

text \<open>
  A table row has its uuid and one text cell per attribute; \<open>getattr\<close> of an attribute
  the row does not have is an \<open>AttributeError\<close>. The table of a row is what
  \<open>backend.uuid_row_to_table_name\<close> says.
\<close>

record table_row =
  row_uuid :: string
  row_table :: string
  row_cells :: "(string \<times> string) list"

definition getattr :: "table_row \<Rightarrow> string \<Rightarrow> error + string" where
  "getattr table_row attr =
     (case map_of (row_cells table_row) attr of None \<Rightarrow> Inl AttributeError | Some c \<Rightarrow> Inr c)"

text \<open>
  \<^verbatim>\<open>def uuids_from_table_row(table_row, schema_entries):
      lazy = []
      uuid = []
      for (attr, attr_type) in schema_entries:
          if attr_type == 'uuid':
              uuid.append(getattr(table_row, attr))
          elif attr_type == 'list_uuid':
              uuid_list = ujson.loads(getattr(table_row, attr))
              uuid.extend(uuid_list)
          elif attr_type == 'json_obj':
              json_dct = getattr(table_row, attr)
              uuid_list = find_dependent_uuids(json_dct)
              uuid.extend([str(u) for u in uuid_list])
          elif attr_type == 'lazy':
              lazy.append(getattr(table_row, attr))
      dependencies = {table_row.uuid: uuid + lazy}
      return (uuid, lazy, dependencies)\<close>
  A decoded \<open>list_uuid\<close> cell is a list of uuid strings; anything else in it is a
  \<open>TypeError\<close> here.
\<close>

definition uuid_strings :: "pyval \<Rightarrow> error + string list" where
  "uuid_strings v =
     (case v of
        PList xs \<Rightarrow> comprehension (\<lambda>x. case x of PStr s \<Rightarrow> Inr s | _ \<Rightarrow> Inl TypeError) xs
      | _ \<Rightarrow> Inl TypeError)"

fun scan_entries ::
  "(string \<Rightarrow> error + pyval) \<Rightarrow> table_row \<Rightarrow> (string \<times> string) list
     \<Rightarrow> string list \<Rightarrow> string list \<Rightarrow> error + (string list \<times> string list)" where
  "scan_entries loads table_row [] uuid lazy = Inr (uuid, lazy)"
| "scan_entries loads table_row ((attr, attr_type) # rest) uuid lazy =
     (if attr_type = ''uuid'' then
        (case getattr table_row attr of
           Inl e \<Rightarrow> Inl e
         | Inr c \<Rightarrow> scan_entries loads table_row rest (uuid @ [c]) lazy)
      else if attr_type = ''list_uuid'' then
        (case getattr table_row attr of
           Inl e \<Rightarrow> Inl e
         | Inr c \<Rightarrow>
             (case loads c of
                Inl e \<Rightarrow> Inl e
              | Inr v \<Rightarrow>
                  (case uuid_strings v of
                     Inl e \<Rightarrow> Inl e
                   | Inr uuid_list \<Rightarrow> scan_entries loads table_row rest (uuid @ uuid_list) lazy)))
      else if attr_type = ''json_obj'' then
        (case getattr table_row attr of
           Inl e \<Rightarrow> Inl e
         | Inr json_dct \<Rightarrow>
             (case find_dependent_uuids loads json_dct of
                Inl e \<Rightarrow> Inl e
              | Inr uuid_list \<Rightarrow>
                  scan_entries loads table_row rest (uuid @ map str_int uuid_list) lazy))
      else if attr_type = ''lazy'' then
        (case getattr table_row attr of
           Inl e \<Rightarrow> Inl e
         | Inr c \<Rightarrow> scan_entries loads table_row rest uuid (lazy @ [c]))
      else scan_entries loads table_row rest uuid lazy)"

definition uuids_from_table_row ::
  "(string \<Rightarrow> error + pyval) \<Rightarrow> table_row \<Rightarrow> (string \<times> string) list
     \<Rightarrow> error + (string list \<times> string list \<times> (string \<times> string list))" where
  "uuids_from_table_row loads table_row schema_entries =
     (case scan_entries loads table_row schema_entries [] [] of
        Inl e \<Rightarrow> Inl e
      | Inr (uuid, lazy) \<Rightarrow> Inr (uuid, lazy, (row_uuid table_row, uuid @ lazy)))"

text \<open>
  Modelled from the spec: the backend is not among the sources. It holds finitely many
  rows; \<open>load_uuids_table\<close> fetches the rows of the requested identities that it
  holds, each once, \<open>load_table_data\<close> gives the data of the rows it is handed, and
  \<open>uuid_row_to_table_name\<close> names the table of a row.
\<close>

type_synonym backend = "table_row list"

definition load_uuids_table :: "backend \<Rightarrow> string set \<Rightarrow> table_row list" where
  "load_uuids_table backend uuids = filter (\<lambda>r. row_uuid r \<in> uuids) backend"

definition load_table_data :: "backend \<Rightarrow> table_row list \<Rightarrow> table_row list" where
  "load_table_data backend uuid_rows = uuid_rows"

definition uuid_row_to_table_name :: "backend \<Rightarrow> table_row \<Rightarrow> string" where
  "uuid_row_to_table_name backend r = row_table r"

text \<open>
  The variables of \<open>get_all_uuids_loading\<close> that its loop reads and writes.
  \<^verbatim>\<open>known_uuids = set(existing_uuids.keys())
  uuid_to_table = {}
  all_table_rows = []
  lazy = []
  dependencies = {}
  while uuid_list:
      new_uuids = {uuid for uuid in uuid_list if uuid not in known_uuids}
      uuid_rows = backend.load_uuids_table(new_uuids)
      new_table_rows = backend.load_table_data(uuid_rows)
      uuid_to_table.update({r.uuid: backend.uuid_row_to_table_name(r)
                            for r in uuid_rows})
      uuid_list = []
      for row in new_table_rows:
          entries = schema[uuid_to_table[row.uuid]]
          loc_uuid, loc_lazy, deps = uuids_from_table_row(row, entries)
          uuid_list += loc_uuid
          lazy += loc_lazy
          dependencies.update(deps)
      all_table_rows += new_table_rows
      known_uuids |= new_uuids\<close>
\<close>

record loading =
  uuid_list :: "string list"
  known_uuids :: "string set"
  uuid_to_table :: "string \<rightharpoonup> string"
  all_table_rows :: "table_row list"
  lazy_uuids :: "string list"
  dependencies :: "string \<rightharpoonup> string list"

definition new_uuids :: "loading \<Rightarrow> string set" where
  "new_uuids s = {uuid \<in> set (uuid_list s). uuid \<notin> known_uuids s}"

definition new_table_rows :: "backend \<Rightarrow> loading \<Rightarrow> table_row list" where
  "new_table_rows backend s = load_table_data backend (load_uuids_table backend (new_uuids s))"

text \<open>The inner \<open>for\<close> loop over the rows just fetched.\<close>

fun scan_rows ::
  "(string \<Rightarrow> error + pyval) \<Rightarrow> (string \<rightharpoonup> (string \<times> string) list) \<Rightarrow> (string \<rightharpoonup> string)
     \<Rightarrow> table_row list \<Rightarrow> string list \<Rightarrow> string list \<Rightarrow> (string \<rightharpoonup> string list)
     \<Rightarrow> error + (string list \<times> string list \<times> (string \<rightharpoonup> string list))" where
  "scan_rows loads schema u2t [] ul lz deps = Inr (ul, lz, deps)"
| "scan_rows loads schema u2t (row # rows) ul lz deps =
     (case u2t (row_uuid row) of
        None \<Rightarrow> Inl KeyError
      | Some table \<Rightarrow>
          (case schema table of
             None \<Rightarrow> Inl KeyError
           | Some entries \<Rightarrow>
               (case uuids_from_table_row loads row entries of
                  Inl e \<Rightarrow> Inl e
                | Inr (loc_uuid, loc_lazy, (k, d)) \<Rightarrow>
                    scan_rows loads schema u2t rows (ul @ loc_uuid) (lz @ loc_lazy) (deps(k \<mapsto> d)))))"

text \<open>One pass through the body of the \<open>while\<close> loop.\<close>

definition loading_step ::
  "(string \<Rightarrow> error + pyval) \<Rightarrow> backend \<Rightarrow> (string \<rightharpoonup> (string \<times> string) list)
     \<Rightarrow> loading \<Rightarrow> error + loading" where
  "loading_step loads backend schema s =
     (let uuid_rows = load_uuids_table backend (new_uuids s);
          rows = load_table_data backend uuid_rows;
          u2t = fold (\<lambda>r m. m(row_uuid r \<mapsto> uuid_row_to_table_name backend r)) uuid_rows
                  (uuid_to_table s)
      in case scan_rows loads schema u2t rows [] (lazy_uuids s) (dependencies s) of
           Inl e \<Rightarrow> Inl e
         | Inr (ul, lz, deps) \<Rightarrow>
             Inr \<lparr>uuid_list = ul,
                  known_uuids = known_uuids s \<union> new_uuids s,
                  uuid_to_table = u2t,
                  all_table_rows = all_table_rows s @ rows,
                  lazy_uuids = lz,
                  dependencies = deps\<rparr>)"

text \<open>
  The \<open>while\<close> loop. It may in principle run forever, so its result is an option:
  \<open>None\<close> for a loop that never ends, otherwise the exception raised or the final
  variables.
\<close>

partial_function (option) loading_loop ::
  "(string \<Rightarrow> error + pyval) \<Rightarrow> backend \<Rightarrow> (string \<rightharpoonup> (string \<times> string) list)
     \<Rightarrow> loading \<Rightarrow> (error + loading) option" where
  "loading_loop loads backend schema s =
     (if uuid_list s = [] then Some (Inr s)
      else (case loading_step loads backend schema s of
              Inl e \<Rightarrow> Some (Inl e)
            | Inr s' \<Rightarrow> loading_loop loads backend schema s'))"

text \<open>
  \<open>get_all_uuids_loading\<close> up to the end of its loop. (The function then groups the rows
  and the lazy identities by table with \<open>tools.group_by_function\<close> and returns them
  with \<open>dependencies\<close> and \<open>uuid_to_table\<close>.)
\<close>

definition get_all_uuids_loading ::
  "(string \<Rightarrow> error + pyval) \<Rightarrow> string list \<Rightarrow> backend \<Rightarrow> (string \<rightharpoonup> (string \<times> string) list)
     \<Rightarrow> (string \<rightharpoonup> pyval) option \<Rightarrow> (error + loading) option" where
  "get_all_uuids_loading loads uuids backend schema existing_uuids =
     loading_loop loads backend schema
       \<lparr>uuid_list = uuids,
        known_uuids = dom (case existing_uuids of None \<Rightarrow> Map.empty | Some m \<Rightarrow> m),
        uuid_to_table = Map.empty,
        all_table_rows = [],
        lazy_uuids = [],
        dependencies = Map.empty\<rparr>"

text \<open>The identities the backend holds a row for, and how many of them are not yet known.\<close>

definition stored_uuids :: "backend \<Rightarrow> string set" where
  "stored_uuids backend = row_uuid ` set backend"

definition unfetched :: "backend \<Rightarrow> loading \<Rightarrow> nat" where
  "unfetched backend s = card (stored_uuids backend - known_uuids s)"

definition loading_measure :: "backend \<Rightarrow> loading \<Rightarrow> nat" where
  "loading_measure backend s = 2 * unfetched backend s + (if uuid_list s = [] then 0 else 1)"

text \<open>
  What holds of the variables throughout: the rows fetched so far are rows of known
  identities, no two of them for the same identity.
\<close>

definition fetched_once :: "loading \<Rightarrow> bool" where
  "fetched_once s =
     (distinct (map row_uuid (all_table_rows s))
      \<and> row_uuid ` set (all_table_rows s) \<subseteq> known_uuids s)"

text \<open>
  A backend with three rows that refer to each other in a circle, in a table with one
  attribute of type \<open>uuid\<close>.
\<close>

definition example_backend :: backend where
  "example_backend =
     [\<lparr>row_uuid = ''1'', row_table = ''t'', row_cells = [(''next'', ''2'')]\<rparr>,
      \<lparr>row_uuid = ''2'', row_table = ''t'', row_cells = [(''next'', ''3'')]\<rparr>,
      \<lparr>row_uuid = ''3'', row_table = ''t'', row_cells = [(''next'', ''1'')]\<rparr>]"

definition example_schema :: "string \<rightharpoonup> (string \<times> string) list" where
  "example_schema = [''t'' \<mapsto> [(''next'', ''uuid'')]]"

definition no_json :: "string \<Rightarrow> error + pyval" where
  "no_json text = Inl ValueError"

definition fetched_uuids :: "(error + loading) option \<Rightarrow> (error + string list) option" where
  "fetched_uuids r = map_option (map_sum id (\<lambda>s. map row_uuid (all_table_rows s))) r"

section \<open>Saving objects (storage/netcdfplus.py, NetCDFPlus.save; netcdfplus/base.py)\<close>

text \<open>
  A storable object has a class, the objects it refers to, and a tag that tells apart two
  objects of equal content, as Python's object identity does. What is handed to
  \<open>save\<close> is a list of such things, a tuple of them, or one object.
\<close>

datatype sobject = SObject (obj_class: string) (obj_tag: nat) (obj_refs: "sobject list")

datatype saveable = AList "saveable list" | ATuple "saveable list" | AnObject sobject

text \<open>
  Modelled from the spec: the object store (class \<open>ObjectStore\<close>) is not among the
  sources. A store keeps its rows in the order they were written, each with its identity
  and the encoded references (store name and identity of each referenced object); the
  reverse index from object to identity; the cache from identity to object; and the next
  identity to assign, a per-store integer that only grows.
\<close>

record object_store =
  store_rows :: "(nat \<times> (string \<times> nat) list) list"
  store_index :: "sobject \<rightharpoonup> nat"
  store_cache :: "nat \<rightharpoonup> sobject"
  next_identity :: nat

text \<open>
  The storage: \<open>_obj_store\<close> maps a class to its store (several classes may share one),
  named here by the store's name, and every store has its state.
\<close>

record storage =
  obj_store :: "string \<rightharpoonup> string"
  stores :: "string \<Rightarrow> object_store"

definition update_store :: "storage \<Rightarrow> string \<Rightarrow> (object_store \<Rightarrow> object_store) \<Rightarrow> storage" where
  "update_store S nm f = S\<lparr>stores := (stores S)(nm := f (stores S nm))\<rparr>"

definition cannot_be_stored :: "string \<Rightarrow> error" where
  "cannot_be_stored cls = RuntimeWarning (''Objects of type '' @ [CHR 0x27] @ cls @ [CHR 0x27] @ '' cannot be stored!'')"

text \<open>
  Modelled from the spec: \<open>ObjectStore.save\<close> is not among the sources.
  If the object already has an identity in this store, return it unchanged. Otherwise
  assign the next identity, serialize the attributes, which saves every referenced
  object (in the store of its class) and encodes it as its identity, write the row,
  register the object under its new identity, and return the identity. A failed save
  leaves the storage as it was.
\<close>

fun ObjectStore_save :: "string \<Rightarrow> sobject \<Rightarrow> storage \<Rightarrow> error + (nat \<times> storage)"
  and save_references :: "sobject list \<Rightarrow> storage \<Rightarrow> error + ((string \<times> nat) list \<times> storage)" where
  "ObjectStore_save nm (SObject c t refs) S =
     (case store_index (stores S nm) (SObject c t refs) of
        Some i \<Rightarrow> Inr (i, S)
      | None \<Rightarrow>
          (let i = next_identity (stores S nm);
               S1 = update_store S nm (\<lambda>st. st\<lparr>next_identity := Suc i\<rparr>)
           in case save_references refs S1 of
                Inl e \<Rightarrow> Inl e
              | Inr (ids, S2) \<Rightarrow>
                  Inr (i, update_store S2 nm
                            (\<lambda>st. st\<lparr>store_rows := store_rows st @ [(i, ids)],
                                      store_index := (store_index st)(SObject c t refs \<mapsto> i),
                                      store_cache := (store_cache st)(i \<mapsto> SObject c t refs)\<rparr>))))"
| "save_references [] S = Inr ([], S)"
| "save_references (r # rs) S =
     (case obj_store S (obj_class r) of
        None \<Rightarrow> Inl (cannot_be_stored (obj_class r))
      | Some nm \<Rightarrow>
          (case ObjectStore_save nm r S of
             Inl e \<Rightarrow> Inl e
           | Inr (i, S1) \<Rightarrow>
               (case save_references rs S1 of
                  Inl e \<Rightarrow> Inl e
                | Inr (ids, S2) \<Rightarrow> Inr ((nm, i) # ids, S2))))"

text \<open>
  \<^verbatim>\<open>def save(self, obj, idx=None):
      if type(obj) is list:
          # a list of objects will be stored one by one
          [self.save(part, idx) for part in obj]
          return
      elif type(obj) is tuple:
          # a tuple will store all parts
          [self.save(part, idx) for part in obj]
          return
      elif obj.__class__ in self._obj_store:
          store = self._obj_store[obj.__class__]
          store.save(obj, idx)
          return
      # Could not save this object.
      raise RuntimeWarning("Objects of type '%s' cannot be stored!" %
                           obj.__class__.__name__)\<close>
  The result is the value returned, \<open>None\<close> or an identity, or the exception, together
  with the storage as the call leaves it. \<open>idx\<close> is left at its default.
\<close>

fun NetCDFPlus_save :: "saveable \<Rightarrow> storage \<Rightarrow> (error + nat option) \<times> storage"
  and save_parts :: "saveable list \<Rightarrow> storage \<Rightarrow> (error + nat option) \<times> storage" where
  "NetCDFPlus_save (AList parts) S = save_parts parts S"
| "NetCDFPlus_save (ATuple parts) S = save_parts parts S"
| "NetCDFPlus_save (AnObject ob) S =
     (case obj_store S (obj_class ob) of
        Some nm \<Rightarrow>
          (case ObjectStore_save nm ob S of
             Inl e \<Rightarrow> (Inl e, S)
           | Inr (i, S') \<Rightarrow> (Inr None, S'))
      | None \<Rightarrow> (Inl (cannot_be_stored (obj_class ob)), S))"
| "save_parts [] S = (Inr None, S)"
| "save_parts (p # ps) S =
     (case NetCDFPlus_save p S of
        (Inl e, S') \<Rightarrow> (Inl e, S')
      | (Inr r, S') \<Rightarrow> save_parts ps S')"

text \<open>
  \<^verbatim>\<open>def save(self, store):
      store.save(self)\<close>
  of \<open>StorableObject\<close>: \<open>store\<close> is a store or the storage.
\<close>

datatype save_target = TheStorage | TheStore string

definition StorableObject_save :: "sobject \<Rightarrow> save_target \<Rightarrow> storage \<Rightarrow> (error + nat option) \<times> storage" where
  "StorableObject_save self target S =
     (case target of
        TheStorage \<Rightarrow>
          (case NetCDFPlus_save (AnObject self) S of
             (Inl e, S') \<Rightarrow> (Inl e, S')
           | (Inr r, S') \<Rightarrow> (Inr None, S'))
      | TheStore nm \<Rightarrow>
          (case ObjectStore_save nm self S of
             Inl e \<Rightarrow> (Inl e, S)
           | Inr (i, S') \<Rightarrow> (Inr None, S')))"

text \<open>The rows of a store that carry a given identity.\<close>

definition rows_of :: "object_store \<Rightarrow> nat \<Rightarrow> (nat \<times> (string \<times> nat) list) list" where
  "rows_of st i = filter (\<lambda>row. fst row = i) (store_rows st)"

definition row_ids :: "object_store \<Rightarrow> nat set" where
  "row_ids st = fst ` set (store_rows st)"

text \<open>
  A store in order: no identity on two rows, every identity on a row below the next one
  to assign, and every identity in the reverse index on a row.
\<close>

definition store_ok :: "object_store \<Rightarrow> bool" where
  "store_ok st =
     (distinct (map fst (store_rows st))
      \<and> (\<forall>j \<in> row_ids st. j < next_identity st)
      \<and> (\<forall>ob i. store_index st ob = Some i \<longrightarrow> i \<in> row_ids st))"

text \<open>What a save may do to a store: assign identities from the next one on, and add rows for them.\<close>

definition store_grows :: "object_store \<Rightarrow> object_store \<Rightarrow> bool" where
  "store_grows st st' =
     (next_identity st \<le> next_identity st'
      \<and> row_ids st' \<subseteq> row_ids st \<union> {next_identity st ..< next_identity st'}
      \<and> (store_ok st \<longrightarrow> store_ok st'))"

definition storage_grows :: "storage \<Rightarrow> storage \<Rightarrow> bool" where
  "storage_grows S S' =
     (obj_store S' = obj_store S \<and> (\<forall>nm. store_grows (stores S nm) (stores S' nm)))"

definition storage_ok :: "storage \<Rightarrow> bool" where
  "storage_ok S = (\<forall>nm. store_ok (stores S nm))"

text \<open>An object whose class, and the class of everything it refers to, has a store.\<close>

fun registered :: "(string \<rightharpoonup> string) \<Rightarrow> sobject \<Rightarrow> bool" where
  "registered m (SObject c t refs) = (m c \<noteq> None \<and> list_all (registered m) refs)"

definition empty_store :: object_store where
  "empty_store = \<lparr>store_rows = [], store_index = Map.empty, store_cache = Map.empty, next_identity = 0\<rparr>"

text \<open>
  A storage with a store for samples and one for snapshots, both empty, and a sample that
  refers to two snapshots.
\<close>

definition example_storage :: storage where
  "example_storage =
     \<lparr>obj_store = [''Sample'' \<mapsto> ''samples'', ''Snapshot'' \<mapsto> ''snapshots''],
      stores = (\<lambda>nm. empty_store)\<rparr>"

definition example_sample :: sobject where
  "example_sample = SObject ''Sample'' 0 [SObject ''Snapshot'' 1 [], SObject ''Snapshot'' 2 []]"

chapter \<open>Theorems\<close>

section \<open>The 'index' conversion\<close>

lemma sint_to_int32:
  assumes "- (2 ^ 31) \<le> n" "n < 2 ^ 31"
  shows "to_int32 n = Inr (word_of_int n) \<and> sint (word_of_int n :: int32) = n"
proof -
  have "- (2 ^ 63) \<le> n" "n < 2 ^ 63" using assms by simp_all
  then have a: "to_int32 n = Inr (word_of_int n)" by (simp add: to_int32_def)
  have "sint (word_of_int n :: int32) = n"
    using assms by (simp add: signed_take_bit_int_eq_self sint_sbintrunc')
  with a show ?thesis by simp
qed

lemma to_int32_list_roundtrip:
  assumes "\<forall>v \<in> set vs. int32_index_value v"
  shows "\<exists>ws. to_int32_list (map (\<lambda>w. case w of None \<Rightarrow> - 1 | Some n \<Rightarrow> n) vs) = Inr ws
           \<and> map (\<lambda>w. if w < 0 then None else Some w) (map sint ws) = vs"
  using assms
proof (induction vs)
  case Nil
  then show ?case by simp
next
  case (Cons v vs)
  then obtain ws where ws:
    "to_int32_list (map (\<lambda>w. case w of None \<Rightarrow> - 1 | Some n \<Rightarrow> n) vs) = Inr ws"
    "map (\<lambda>w. if w < 0 then None else Some w) (map sint ws) = vs"
    by auto
  show ?case
  proof (cases v)
    case None
    have "to_int32 (- 1) = Inr (word_of_int (- 1)) \<and> sint (word_of_int (- 1) :: int32) = - 1"
      by (rule sint_to_int32) simp_all
    with None ws show ?thesis by simp
  next
    case (Some n)
    with Cons.prems have "0 \<le> n" "n < 2 ^ 31" by (simp_all add: int32_index_value_def)
    then have "to_int32 n = Inr (word_of_int n) \<and> sint (word_of_int n :: int32) = n"
      by (intro sint_to_int32) simp_all
    with Some ws \<open>0 \<le> n\<close> show ?thesis by simp
  qed
qed

lemma index_read_after_write_int32:
  assumes "\<forall>x \<in> set_arg v. int32_index_value x"
  shows "index_read_after_write variable key v = Inr v"
proof (cases v)
  case (Scalar x)
  with assms have "\<forall>y \<in> set [x]. int32_index_value y" by simp
  from to_int32_list_roundtrip [OF this] Scalar show ?thesis
    by (auto simp: index_read_after_write_def index_setitem_def index_getitem_def
             split: sum.splits)
next
  case (Iter xs)
  with assms have "\<forall>y \<in> set xs. int32_index_value y" by simp
  from to_int32_list_roundtrip [OF this] Iter show ?thesis
    by (auto simp: index_read_after_write_def index_setitem_def index_getitem_def
             split: sum.splits)
qed

text \<open>
  C6, as the code has it. The setter sends \<open>None\<close> to the sentinel \<open>-1\<close> and an integer
  to itself; the getter sends a negative stored value to \<open>None\<close> and a non-negative one
  to itself, elementwise on vectors; and reading back what was written returns the
  original value for every value (or vector of values) that is \<open>None\<close> or a non-negative
  integer below \<open>2 ^ 31\<close>, the range of the int32 cell of an 'index' variable.
\<close>

theorem index_roundtrip_int32:
  assumes "\<forall>x \<in> set_arg v. int32_index_value x"
  shows "index_setter (Scalar None) = Scalar (- 1)
       \<and> index_setter (Scalar (Some n)) = Scalar n
       \<and> index_getter (Scalar w) = Scalar (if w < 0 then None else Some w)
       \<and> index_getter (Iter ws) = Iter (map (\<lambda>w. if w < 0 then None else Some w) ws)
       \<and> index_read_after_write variable key v = Inr v"
  using index_read_after_write_int32 [OF assms] by simp

theorem index_roundtrip_int32_witness:
  "int32_index_value None \<and> int32_index_value (Some 0) \<and> int32_index_value (Some 2147483647)
   \<and> index_read_after_write Map.empty 4 (Iter [None, Some 0, Some 2147483647])
       = Inr (Iter [None, Some 0, Some 2147483647])"
proof -
  have h: "\<forall>x \<in> set_arg (Iter [None, Some 0, Some 2147483647]). int32_index_value x"
    by (simp add: int32_index_value_def)
  from index_roundtrip_int32 [OF h, of 0 0 "[]" Map.empty 4] h show ?thesis by simp
qed

text \<open>
  C6 as stated fails: \<open>2 ^ 31\<close> is a non-negative integer, the setter passes it on
  unchanged, the int32 cell wraps it to \<open>- 2 ^ 31\<close>, and the getter reads \<open>None\<close>.
\<close>

theorem index_roundtrip_counterexample:
  "index_value (Some (2 ^ 31))
   \<and> index_read_after_write Map.empty 0 (Scalar (Some (2 ^ 31))) = Inr (Scalar None)
   \<and> index_read_after_write Map.empty 0 (Scalar (Some (2 ^ 31))) \<noteq> Inr (Scalar (Some (2 ^ 31)))"
  by (simp add: index_value_def index_read_after_write_def index_setitem_def
                index_getitem_def to_int32_def)

section \<open>Lazy proxies\<close>

lemma LoaderProxy_subject_memo:
  assumes "LoaderProxy_subject ld p h0 = (Inr (Ref r), h)"
  shows "\<exists>i s. h p = Some (LoaderProxy i s (Some r))"
proof (cases "h0 p")
  case None
  with assms show ?thesis by (simp add: LoaderProxy_subject_def)
next
  case (Some ob)
  show ?thesis
  proof (cases ob)
    case (LoaderProxy i s sub)
    show ?thesis
    proof (cases "memoized_subject h0 sub")
      case PyNone
      with assms Some LoaderProxy show ?thesis
        by (auto simp: LoaderProxy_subject_def split: prod.splits sum.splits pyref.splits)
    next
      case (Ref obj)
      with assms Some LoaderProxy have "obj = r" "h = h0"
        by (simp_all add: LoaderProxy_subject_def)
      moreover from Ref have "sub = Some obj"
        by (auto simp: memoized_subject_def weakref_call_def split: option.splits)
      ultimately show ?thesis using Some LoaderProxy by simp
    qed
  next
    case (ObjectStore c)
    with assms Some show ?thesis by (simp add: LoaderProxy_subject_def)
  next
    case (Instance c)
    with assms Some show ?thesis by (simp add: LoaderProxy_subject_def)
  qed
qed

lemma LoaderProxy_subject_alive:
  assumes "h p = Some (LoaderProxy i s (Some r))" and "h r \<noteq> None"
  shows "LoaderProxy_subject ld p h = (Inr (Ref r), h)"
  using assms
  by (auto simp: LoaderProxy_subject_def memoized_subject_def weakref_call_def)

lemma LoaderProxy_eq_proxies:
  assumes "h p = Some (LoaderProxy i s sub)" and "h q = Some (LoaderProxy j t sub')"
  shows "LoaderProxy_eq ld p (Ref q) h = (Inr (i = j \<and> s = t), h)"
proof (cases "q = p")
  case True
  with assms show ?thesis by (simp add: LoaderProxy_eq_def)
next
  case False
  with assms show ?thesis by (simp add: LoaderProxy_eq_def type_is_LoaderProxy_def)
qed

lemma LoaderProxy_eq_resolved:
  assumes "LoaderProxy_subject ld p h0 = (Inr (Ref r), h)"
    and "h r \<noteq> None" and "\<not> type_is_LoaderProxy h (Ref r)"
  shows "LoaderProxy_eq ld p (Ref r) h = (Inr True, h)"
proof -
  from LoaderProxy_subject_memo [OF assms(1)]
  obtain i s where p: "h p = Some (LoaderProxy i s (Some r))" by blast
  have "LoaderProxy_subject ld p h = (Inr (Ref r), h)"
    using p assms(2) by (rule LoaderProxy_subject_alive)
  with p assms(3) show ?thesis by (simp add: LoaderProxy_eq_def)
qed

text \<open>
  C7. For proxies \<open>p\<close> and \<open>q\<close>, \<open>p == q\<close> is true exactly when they have the same
  index and the same store (so proxies that differ in either are never equal), and the
  comparison leaves the heap as it was. And once \<open>p\<close> has been resolved to an object
  \<open>r\<close> (an object that is still there and is not itself a proxy), \<open>p == r\<close> is true.
\<close>

theorem LoaderProxy_eq_spec:
  "(h p = Some (LoaderProxy i s sub) \<and> h q = Some (LoaderProxy j t sub')
      \<longrightarrow> LoaderProxy_eq ld p (Ref q) h = (Inr (i = j \<and> s = t), h))
   \<and> (LoaderProxy_subject ld p h0 = (Inr (Ref r), h) \<and> h r \<noteq> None \<and> \<not> type_is_LoaderProxy h (Ref r)
      \<longrightarrow> LoaderProxy_eq ld p (Ref r) h = (Inr True, h))"
proof (intro conjI impI)
  assume "h p = Some (LoaderProxy i s sub) \<and> h q = Some (LoaderProxy j t sub')"
  then show "LoaderProxy_eq ld p (Ref q) h = (Inr (i = j \<and> s = t), h)"
    by (simp add: LoaderProxy_eq_proxies)
next
  assume a: "LoaderProxy_subject ld p h0 = (Inr (Ref r), h) \<and> h r \<noteq> None
             \<and> \<not> type_is_LoaderProxy h (Ref r)"
  show "LoaderProxy_eq ld p (Ref r) h = (Inr True, h)"
    by (rule LoaderProxy_eq_resolved [of ld p h0 r h]) (simp_all add: a)
qed

theorem LoaderProxy_eq_spec_witness:
  "LoaderProxy_eq example_loader 1 (Ref 2) example_heap = (Inr True, example_heap)
   \<and> LoaderProxy_eq example_loader 1 (Ref 4) example_heap = (Inr False, example_heap)
   \<and> LoaderProxy_eq example_loader 2 (Ref 5) example_heap = (Inr True, example_heap)"
proof -
  have h1: "example_heap 1 = Some (LoaderProxy 3 0 None)
            \<and> example_heap 2 = Some (LoaderProxy 3 0 (Some 5))"
    by (simp add: example_heap_def)
  have h2: "example_heap 1 = Some (LoaderProxy 3 0 None)
            \<and> example_heap 4 = Some (LoaderProxy 4 0 None)"
    by (simp add: example_heap_def)
  have h3: "LoaderProxy_subject example_loader 2 example_heap = (Inr (Ref 5), example_heap)
            \<and> example_heap 5 \<noteq> None \<and> \<not> type_is_LoaderProxy example_heap (Ref 5)"
    by (simp add: example_heap_def LoaderProxy_subject_def memoized_subject_def
                  weakref_call_def type_is_LoaderProxy_def)
  from LoaderProxy_eq_spec [where h = example_heap and p = 1 and i = 3 and s = 0 and sub = None
         and q = 2 and j = 3 and t = 0 and sub' = "Some 5" and ld = example_loader] h1
  have a: "LoaderProxy_eq example_loader 1 (Ref 2) example_heap = (Inr True, example_heap)"
    by simp
  from LoaderProxy_eq_spec [where h = example_heap and p = 1 and i = 3 and s = 0 and sub = None
         and q = 4 and j = 4 and t = 0 and sub' = None and ld = example_loader] h2
  have b: "LoaderProxy_eq example_loader 1 (Ref 4) example_heap = (Inr False, example_heap)"
    by simp
  from LoaderProxy_eq_spec [where h = example_heap and p = 2 and ld = example_loader
         and ?h0.0 = example_heap and r = 5] h3
  have c: "LoaderProxy_eq example_loader 2 (Ref 5) example_heap = (Inr True, example_heap)"
    by simp
  from a b c show ?thesis by simp
qed

section \<open>Memoization\<close>

lemma resolve_times_alive:
  assumes "h p = Some (LoaderProxy i s (Some r))" and "h r \<noteq> None"
  shows "resolve_times ld p n h = (replicate n (Inr (Ref r)), h)"
proof -
  have step: "LoaderProxy_subject ld p h = (Inr (Ref r), h)"
    using assms by (rule LoaderProxy_subject_alive)
  show ?thesis by (induction n) (simp_all add: step)
qed

lemma GenericLazyLoader_load_loaded:
  assumes "loaded_object l \<noteq> PyNone"
  shows "GenericLazyLoader_load sload l st = (Inr (loaded_object l), l, st)"
  using assms by (simp add: GenericLazyLoader_load_def)

lemma GenericLazyLoader_load_result:
  assumes "GenericLazyLoader_load sload l0 st0 = (Inr v, l, st)"
  shows "loaded_object l = v \<and> v \<noteq> PyNone"
  using assms
  by (auto simp: GenericLazyLoader_load_def split: if_splits prod.splits)

lemma load_times_loaded:
  assumes "loaded_object l \<noteq> PyNone"
  shows "load_times sload n l st = (replicate n (Inr (loaded_object l)), l, st)"
proof -
  have step: "GenericLazyLoader_load sload l st = (Inr (loaded_object l), l, st)"
    using assms by (rule GenericLazyLoader_load_loaded)
  show ?thesis by (induction n) (simp_all add: step)
qed

text \<open>
  C8. Once a proxy has been resolved to \<open>r\<close>, any number of further resolutions return
  the same \<open>r\<close> and leave the heap untouched (the store is not asked again), as long as
  \<open>r\<close> is still alive, which is what the weak reference needs. Once a lazy loader's
  \<open>load\<close> has returned \<open>v\<close>, any number of further loads return the same \<open>v\<close> and leave
  the loader and the storage untouched.
\<close>

theorem repeated_resolution_same_instance:
  "(LoaderProxy_subject ld p h0 = (Inr (Ref r), h) \<and> h r \<noteq> None
      \<longrightarrow> resolve_times ld p n h = (replicate n (Inr (Ref r)), h))
   \<and> (GenericLazyLoader_load sload l0 st0 = (Inr v, l, st)
      \<longrightarrow> load_times sload n l st = (replicate n (Inr v), l, st))"
proof (intro conjI impI)
  assume a: "LoaderProxy_subject ld p h0 = (Inr (Ref r), h) \<and> h r \<noteq> None"
  with LoaderProxy_subject_memo [of ld p h0 r h]
  obtain i s where "h p = Some (LoaderProxy i s (Some r))" by blast
  with a show "resolve_times ld p n h = (replicate n (Inr (Ref r)), h)"
    by (simp add: resolve_times_alive)
next
  assume "GenericLazyLoader_load sload l0 st0 = (Inr v, l, st)"
  from GenericLazyLoader_load_result [OF this] load_times_loaded [of l sload n st]
  show "load_times sload n l st = (replicate n (Inr v), l, st)" by simp
qed

theorem repeated_resolution_same_instance_witness:
  "resolve_times example_loader 1 3 (example_heap(1 \<mapsto> LoaderProxy 3 0 (Some 5)))
     = ([Inr (Ref 5), Inr (Ref 5), Inr (Ref 5)], example_heap(1 \<mapsto> LoaderProxy 3 0 (Some 5)))
   \<and> load_times (\<lambda>u n. (Ref n, Suc n)) 3 \<lparr>ll_uuid = ''7'', loaded_object = Ref 0\<rparr> (1::nat)
     = ([Inr (Ref 0), Inr (Ref 0), Inr (Ref 0)], \<lparr>ll_uuid = ''7'', loaded_object = Ref 0\<rparr>, 1)"
proof -
  let ?h = "example_heap(1 \<mapsto> LoaderProxy 3 0 (Some 5))"
  let ?l = "\<lparr>ll_uuid = ''7'', loaded_object = Ref 0\<rparr>"
  have h1: "LoaderProxy_subject example_loader 1 example_heap = (Inr (Ref 5), ?h) \<and> ?h 5 \<noteq> None"
    by (simp add: example_heap_def example_loader_def LoaderProxy_subject_def
                  LoaderProxy_load_def memoized_subject_def)
  have h2: "GenericLazyLoader_load (\<lambda>u n. (Ref n, Suc n)) \<lparr>ll_uuid = ''7'', loaded_object = PyNone\<rparr> (0::nat)
              = (Inr (Ref 0), ?l, 1)"
    by (simp add: GenericLazyLoader_load_def)
  from repeated_resolution_same_instance
         [where ld = example_loader and p = 1 and ?h0.0 = example_heap and r = 5 and h = ?h
            and n = 3 and sload = "\<lambda>u n. (Ref n, Suc n)"
            and ?l0.0 = "\<lparr>ll_uuid = ''7'', loaded_object = PyNone\<rparr>"
            and ?st0.0 = "0::nat" and v = "Ref 0" and l = ?l and st = "1::nat"]
       h1 h2
  show ?thesis by (simp add: eval_nat_numeral)
qed

section \<open>The class of a proxy\<close>



section \<open>Key delegate\<close>

lemma comprehension_Inr_iff:
  "comprehension f xs = Inr ys \<longleftrightarrow> list_all2 (\<lambda>x y. f x = Inr y) xs ys"
proof (induction xs arbitrary: ys)
  case Nil
  show ?case by auto
next
  case (Cons x xs)
  show ?case
  proof (cases ys)
    case Nil
    then show ?thesis by (simp split: sum.splits)
  next
    case (Cons y ys')
    with Cons.IH [of ys'] show ?thesis by (auto split: sum.splits)
  qed
qed

lemma comprehension_total:
  assumes "\<forall>x \<in> set xs. \<exists>y. f x = Inr y"
  shows "\<exists>ys. comprehension f xs = Inr ys"
  using assms
proof (induction xs)
  case Nil
  show ?case by simp
next
  case (Cons x xs)
  then obtain y ys where "f x = Inr y" "comprehension f xs = Inr ys" by auto
  then show ?case by simp
qed

lemma list_index_first:
  assumes "x \<in> set xs"
  shows "\<exists>n. list_index xs x = Inr n \<and> n < length xs \<and> xs ! n = x \<and> (\<forall>m<n. xs ! m \<noteq> x)"
  using assms
proof (induction xs)
  case Nil
  then show ?case by simp
next
  case (Cons y ys)
  show ?case
  proof (cases "y = x")
    case True
    then show ?thesis by simp
  next
    case False
    with Cons obtain n where n: "list_index ys x = Inr n" "n < length ys" "ys ! n = x"
      "\<forall>m<n. ys ! m \<noteq> x" by auto
    have "\<forall>m<Suc n. (y # ys) ! m \<noteq> x"
    proof (intro allI impI)
      fix m assume "m < Suc n"
      with n(4) False show "(y # ys) ! m \<noteq> x" by (cases m) auto
    qed
    with False n show ?thesis by simp
  qed
qed

lemma variable_set_list_other:
  assumes "i \<notin> set idxs"
  shows "variable_set_list variable idxs cells i = variable i"
  using assms
proof (induction idxs arbitrary: cells variable)
  case Nil
  show ?case by (simp add: variable_set_list_def)
next
  case (Cons j js)
  show ?case
  proof (cases cells)
    case Nil
    then show ?thesis by (simp add: variable_set_list_def)
  next
    case (Cons c cs)
    have step: "variable_set_list variable (j # js) (c # cs) = variable_set_list (variable(j \<mapsto> c)) js cs"
      by (simp add: variable_set_list_def)
    from Cons.prems have "i \<notin> set js" "i \<noteq> j" by auto
    from Cons.IH [OF this(1)] have "variable_set_list (variable(j \<mapsto> c)) js cs i = (variable(j \<mapsto> c)) i" .
    with \<open>i \<noteq> j\<close> step Cons show ?thesis by simp
  qed
qed

lemma variable_set_list_nth:
  assumes "distinct idxs" and "length idxs = length cells" and "n < length idxs"
  shows "variable_set_list variable idxs cells (idxs ! n) = Some (cells ! n)"
  using assms
proof (induction idxs arbitrary: cells variable n)
  case Nil
  then show ?case by simp
next
  case (Cons j js)
  then obtain c cs where cells: "cells = c # cs" by (cases cells) auto
  have step: "variable_set_list variable (j # js) (c # cs) = variable_set_list (variable(j \<mapsto> c)) js cs"
    by (simp add: variable_set_list_def)
  show ?case
  proof (cases n)
    case 0
    from Cons.prems have "j \<notin> set js" by simp
    then have "variable_set_list (variable(j \<mapsto> c)) js cs j = (variable(j \<mapsto> c)) j"
      by (rule variable_set_list_other)
    with 0 cells step show ?thesis by simp
  next
    case (Suc m)
    with Cons.prems cells have "distinct js" "length js = length cs" "m < length js" by simp_all
    then have "variable_set_list (variable(j \<mapsto> c)) js cs (js ! m) = Some (cs ! m)"
      by (rule Cons.IH)
    with Suc cells step show ?thesis by simp
  qed
qed

lemma list_of_set_props: "distinct (list_of_set xs) \<and> set (list_of_set xs) = set xs"
  by (simp add: list_of_set_def)

lemma KeyDelegate_getitem_order:
  assumes keys: "comprehension (to_idx index) items = Inr idxs"
    and dom: "\<forall>i \<in> set idxs. variable i \<noteq> None"
  shows "\<exists>vs. KeyDelegate_getitem index variable (Iter items) = Inr (Iter vs)
              \<and> list_all2 (\<lambda>i v. variable i = Some v) idxs vs"
proof -
  let ?S = "sort (list_of_set idxs)"
  have S: "distinct ?S" "set ?S = set idxs" using list_of_set_props [of idxs] by simp_all
  have "\<forall>i \<in> set ?S. \<exists>c. variable_get variable i = Inr c"
    using dom S(2) by (auto simp: variable_get_def)
  from comprehension_total [OF this]
  obtain sv where sv: "variable_get_list variable ?S = Inr sv"
    by (auto simp: variable_get_list_def)
  then have all2: "list_all2 (\<lambda>i c. variable_get variable i = Inr c) ?S sv"
    by (simp add: variable_get_list_def comprehension_Inr_iff)
  let ?pick = "\<lambda>idx. case list_index ?S idx of Inl e \<Rightarrow> Inl e | Inr n \<Rightarrow> list_get sv n"
  have pick: "\<exists>v. ?pick idx = Inr v \<and> variable idx = Some v" if "idx \<in> set idxs" for idx
  proof -
    from that S(2) have "idx \<in> set ?S" by simp
    from list_index_first [OF this]
    obtain n where n: "list_index ?S idx = Inr n" "n < length ?S" "?S ! n = idx" by blast
    from all2 have len: "length sv = length ?S" by (auto dest: list_all2_lengthD)
    from all2 n(2) have "variable_get variable (?S ! n) = Inr (sv ! n)"
      by (simp add: list_all2_conv_all_nth)
    with n(3) have "variable idx = Some (sv ! n)"
      by (auto simp: variable_get_def split: option.splits)
    moreover from n len have "?pick idx = Inr (sv ! n)" by (simp add: list_get_def)
    ultimately show ?thesis by blast
  qed
  then have "\<forall>idx \<in> set idxs. \<exists>v. ?pick idx = Inr v" by blast
  from comprehension_total [OF this]
  obtain vs where vs: "comprehension ?pick idxs = Inr vs" by blast
  then have A: "list_all2 (\<lambda>idx v. ?pick idx = Inr v) idxs vs"
    by (simp add: comprehension_Inr_iff)
  have "list_all2 (\<lambda>i v. variable i = Some v) idxs vs"
    unfolding list_all2_conv_all_nth
  proof (intro conjI allI impI)
    show "length idxs = length vs" using A by (rule list_all2_lengthD)
  next
    fix i assume i: "i < length idxs"
    with A have "?pick (idxs ! i) = Inr (vs ! i)" by (simp add: list_all2_conv_all_nth)
    moreover from i have "idxs ! i \<in> set idxs" by simp
    ultimately show "variable (idxs ! i) = Some (vs ! i)" using pick [of "idxs ! i"] by auto
  qed
  moreover have "KeyDelegate_getitem index variable (Iter items) = Inr (Iter vs)"
    using keys sv vs by (simp add: KeyDelegate_getitem_def)
  ultimately show ?thesis by blast
qed

lemma KeyDelegate_setitem_first:
  assumes keys: "comprehension (to_idx index) items = Inr idxs"
    and len: "length items \<le> length cells"
  shows "\<exists>variable'. KeyDelegate_setitem index variable (Iter items) (Iter cells) = Inr variable'
           \<and> (\<forall>k<length idxs. \<exists>j\<le>k. idxs ! j = idxs ! k \<and> (\<forall>m<j. idxs ! m \<noteq> idxs ! k)
                 \<and> variable' (idxs ! k) = Some (cells ! j))
           \<and> (\<forall>i. i \<notin> set idxs \<longrightarrow> variable' i = variable i)"
proof -
  let ?S = "list_of_set idxs"
  have S: "distinct ?S" "set ?S = set idxs" using list_of_set_props [of idxs] by simp_all
  from keys have li: "length idxs = length items"
    by (simp add: comprehension_Inr_iff list_all2_lengthD)
  let ?pick = "\<lambda>v. case list_index idxs v of Inl e \<Rightarrow> Inl e | Inr n \<Rightarrow> list_get cells n"
  have pick: "\<exists>j. list_index idxs v = Inr j \<and> j < length idxs \<and> idxs ! j = v
                \<and> (\<forall>m<j. idxs ! m \<noteq> v) \<and> ?pick v = Inr (cells ! j)"
    if "v \<in> set idxs" for v
  proof -
    from list_index_first [OF that]
    obtain j where j: "list_index idxs v = Inr j" "j < length idxs" "idxs ! j = v"
      "\<forall>m<j. idxs ! m \<noteq> v" by blast
    with li len have "?pick v = Inr (cells ! j)" by (simp add: list_get_def)
    with j show ?thesis by blast
  qed
  then have "\<forall>v \<in> set ?S. \<exists>c. ?pick v = Inr c" using S(2) by blast
  from comprehension_total [OF this]
  obtain sv where sv: "comprehension ?pick ?S = Inr sv" by blast
  then have all2: "list_all2 (\<lambda>v c. ?pick v = Inr c) ?S sv"
    by (simp add: comprehension_Inr_iff)
  let ?variable' = "variable_set_list variable ?S sv"
  have res: "KeyDelegate_setitem index variable (Iter items) (Iter cells) = Inr ?variable'"
    using keys sv by (simp add: KeyDelegate_setitem_def)
  have stored: "\<exists>j\<le>k. idxs ! j = idxs ! k \<and> (\<forall>m<j. idxs ! m \<noteq> idxs ! k)
                  \<and> ?variable' (idxs ! k) = Some (cells ! j)" if k: "k < length idxs" for k
  proof -
    from k have mem: "idxs ! k \<in> set idxs" by simp
    from pick [OF mem]
    obtain j where j: "list_index idxs (idxs ! k) = Inr j" "j < length idxs" "idxs ! j = idxs ! k"
      "\<forall>m<j. idxs ! m \<noteq> idxs ! k" "?pick (idxs ! k) = Inr (cells ! j)" by blast
    have "j \<le> k"
    proof (rule ccontr)
      assume "\<not> j \<le> k"
      then have "k < j" by simp
      with j(4) show False by blast
    qed
    from mem S(2) have "idxs ! k \<in> set ?S" by simp
    then obtain n where n: "n < length ?S" "?S ! n = idxs ! k" by (auto simp: in_set_conv_nth)
    from all2 have ls: "length ?S = length sv" by (rule list_all2_lengthD)
    from all2 n(1) have "?pick (?S ! n) = Inr (sv ! n)" by (simp add: list_all2_conv_all_nth)
    with n(2) j(5) have "sv ! n = cells ! j" by simp
    moreover from variable_set_list_nth [OF S(1) ls n(1), of variable] n(2)
    have "?variable' (idxs ! k) = Some (sv ! n)" by simp
    ultimately show ?thesis using j(3,4) \<open>j \<le> k\<close> by auto
  qed
  have other: "?variable' i = variable i" if "i \<notin> set idxs" for i
    using that S(2) by (simp add: variable_set_list_other)
  from res stored other show ?thesis by blast
qed
text \<open>
  C5, as the code has it. Let the requested keys translate (integers as they are, objects
  through the reverse index) to the indices \<open>idxs\<close>, duplicates allowed.
  Reading: if every index has a cell, the result has one element per requested key, and
  its \<open>k\<close>-th element is the cell of the \<open>k\<close>-th key.
  Writing: if there are at least as many values as keys, the write succeeds, every cell
  outside the requested indices is unchanged, and the cell of the \<open>k\<close>-th key holds the
  value supplied at the first position where that key occurs in the request; so with
  pairwise different keys every supplied value is stored at its own key.
\<close>

theorem KeyDelegate_vectorized:
  assumes "comprehension (to_idx index) items = Inr idxs"
  shows "((\<forall>i \<in> set idxs. variable i \<noteq> None) \<longrightarrow>
            (\<exists>vs. KeyDelegate_getitem index variable (Iter items) = Inr (Iter vs)
                  \<and> length vs = length items
                  \<and> (\<forall>k<length items. variable (idxs ! k) = Some (vs ! k))))
       \<and> (length items \<le> length cells \<longrightarrow>
            (\<exists>variable'. KeyDelegate_setitem index variable (Iter items) (Iter cells) = Inr variable'
                  \<and> (\<forall>k<length items. \<exists>j\<le>k. idxs ! j = idxs ! k \<and> (\<forall>m<j. idxs ! m \<noteq> idxs ! k)
                         \<and> variable' (idxs ! k) = Some (cells ! j))
                  \<and> (distinct idxs \<longrightarrow> (\<forall>k<length items. variable' (idxs ! k) = Some (cells ! k)))
                  \<and> (\<forall>i. i \<notin> set idxs \<longrightarrow> variable' i = variable i)))"
proof (intro conjI impI)
  from assms have li: "length idxs = length items"
    by (simp add: comprehension_Inr_iff list_all2_lengthD)
  {
    assume "\<forall>i \<in> set idxs. variable i \<noteq> None"
    from KeyDelegate_getitem_order [OF assms this]
    obtain vs where vs: "KeyDelegate_getitem index variable (Iter items) = Inr (Iter vs)"
      "list_all2 (\<lambda>i v. variable i = Some v) idxs vs" by blast
    from vs(2) li have "length vs = length items"
      "\<forall>k<length items. variable (idxs ! k) = Some (vs ! k)"
      by (simp_all add: list_all2_conv_all_nth)
    with vs(1)
    show "\<exists>vs. KeyDelegate_getitem index variable (Iter items) = Inr (Iter vs)
                  \<and> length vs = length items
                  \<and> (\<forall>k<length items. variable (idxs ! k) = Some (vs ! k))" by blast
  }
  {
    assume "length items \<le> length cells"
    from KeyDelegate_setitem_first [OF assms this, of variable]
    obtain variable' where v:
      "KeyDelegate_setitem index variable (Iter items) (Iter cells) = Inr variable'"
      "\<forall>k<length idxs. \<exists>j\<le>k. idxs ! j = idxs ! k \<and> (\<forall>m<j. idxs ! m \<noteq> idxs ! k)
           \<and> variable' (idxs ! k) = Some (cells ! j)"
      "\<forall>i. i \<notin> set idxs \<longrightarrow> variable' i = variable i" by blast
    have d: "variable' (idxs ! k) = Some (cells ! k)" if "distinct idxs" "k < length items" for k
    proof -
      from v(2) that(2) li obtain j where j: "j \<le> k" "idxs ! j = idxs ! k"
        "variable' (idxs ! k) = Some (cells ! j)" by auto
      from j(1,2) that li have "j = k" by (simp add: nth_eq_iff_index_eq)
      with j(3) show ?thesis by simp
    qed
    from v li d
    show "\<exists>variable'. KeyDelegate_setitem index variable (Iter items) (Iter cells) = Inr variable'
                  \<and> (\<forall>k<length items. \<exists>j\<le>k. idxs ! j = idxs ! k \<and> (\<forall>m<j. idxs ! m \<noteq> idxs ! k)
                         \<and> variable' (idxs ! k) = Some (cells ! j))
                  \<and> (distinct idxs \<longrightarrow> (\<forall>k<length items. variable' (idxs ! k) = Some (cells ! k)))
                  \<and> (\<forall>i. i \<notin> set idxs \<longrightarrow> variable' i = variable i)" by auto
  }
qed

theorem KeyDelegate_vectorized_witness:
  "comprehension (to_idx example_index) example_items = Inr [5, 2, 5, 0]
   \<and> KeyDelegate_getitem example_index example_variable (Iter example_items)
       = Inr (Iter [50, 30, 50, 10])
   \<and> map_sum id (\<lambda>v. map v [5, 2, 0, 1])
        (KeyDelegate_setitem example_index example_variable (Iter example_items) (Iter [1, 2, 3, 4]))
       = Inr [Some 1, Some 2, Some 4, None]"
proof -
  have h: "comprehension (to_idx example_index) example_items = Inr [5, 2, 5, 0]"
    by (simp add: example_index_def example_items_def to_idx_def)
  have r: "KeyDelegate_getitem example_index example_variable (Iter example_items)
             = Inr (Iter [50, 30, 50, 10])"
    by (simp add: KeyDelegate_getitem_def h list_of_set_def variable_get_list_def
                  variable_get_def example_variable_def list_get_def)
  have w: "map_sum id (\<lambda>v. map v [5, 2, 0, 1])
             (KeyDelegate_setitem example_index example_variable (Iter example_items) (Iter [1, 2, 3, 4]))
           = Inr [Some 1, Some 2, Some 4, None]"
    by (simp add: KeyDelegate_setitem_def h list_of_set_def variable_set_list_def
                  example_variable_def list_get_def)
  from KeyDelegate_vectorized [OF h, of example_variable "[1, 2, 3, 4]"] h r w
  show ?thesis by blast
qed

text \<open>
  C5 as stated fails for writing: with the key 0 requested twice and the values 10 and
  20, the cell of key 0 ends up holding 10, the value at the first occurrence, so the
  second supplied value is not stored at its key.
\<close>

theorem KeyDelegate_setitem_counterexample:
  "map_sum id (\<lambda>v. v 0)
     (KeyDelegate_setitem (Map.empty :: string \<rightharpoonup> int) (Map.empty :: int \<rightharpoonup> int)
        (Iter [IntKey 0, IntKey 0]) (Iter [10, 20])) = Inr (Some 10)
   \<and> [10, 20 :: int] ! 1 \<noteq> 10"
  by (simp add: KeyDelegate_setitem_def to_idx_def list_of_set_def variable_set_list_def
                list_get_def)

section \<open>Identity markers\<close>

text \<open>
  C4 at the input \<open>{'a': [obj]}\<close>, \<open>obj\<close> an object with uuid 7, and the resolved map
  \<open>{7: obj}\<close>. Encoding replaces the object inside the list by its marker. Decoding
  looks at the top-level values only: the list is not a marker string, so the marker
  inside it stays, and the decoded dictionary is the encoded one, not the original.
\<close>

theorem from_dict_with_uuids_nested_marker:
  "to_dict_with_uuids [(''a'', PList [Storable 7])] = [(''a'', PList [PStr ''UUID(7)''])]
   \<and> from_dict_with_uuids (to_dict_with_uuids [(''a'', PList [Storable 7])]) [7 \<mapsto> Storable 7]
       = Inr [(''a'', PList [PStr ''UUID(7)''])]
   \<and> from_dict_with_uuids (to_dict_with_uuids [(''a'', PList [Storable 7])]) [7 \<mapsto> Storable 7]
       \<noteq> Inr [(''a'', PList [Storable 7])]"
  by (simp add: to_dict_with_uuids_def encode_uuid_def get_uuid_def str_int_def
                str_nat.simps digit_char_def is_uuid_string_def)

lemma from_dict_with_uuids_flat_example:
  "from_dict_with_uuids (to_dict_with_uuids [(''a'', Storable 7), (''n'', PInt 3)]) [7 \<mapsto> Storable 7]
     = Inr [(''a'', Storable 7), (''n'', PInt 3)]"
  by (simp add: to_dict_with_uuids_def encode_uuid_def get_uuid_def str_int_def
                str_nat.simps digit_char_def is_uuid_string_def decode_uuid_def long_def parse_nat_def
                digit_val_def)
lemma digit_val_digit_char:
  assumes "d < 10"
  shows "digit_val (digit_char d) = Some d"
proof -
  from assms have "d = 0 \<or> d = 1 \<or> d = 2 \<or> d = 3 \<or> d = 4 \<or> d = 5 \<or> d = 6 \<or> d = 7 \<or> d = 8 \<or> d = 9"
    by arith
  then show ?thesis by (elim disjE) (simp_all add: digit_char_def digit_val_def)
qed

lemma parse_digits_snoc:
  "parse_digits acc (xs @ [c]) =
     (case parse_digits acc xs of
        None \<Rightarrow> None
      | Some a \<Rightarrow> (case digit_val c of None \<Rightarrow> None | Some d \<Rightarrow> Some (10 * a + d)))"
  by (induction xs arbitrary: acc) (auto split: option.splits)

lemma parse_digits_str_nat: "parse_digits 0 (str_nat n) = Some n"
proof (induction n rule: str_nat.induct)
  case (1 n)
  show ?case
  proof (cases "n < 10")
    case True
    then show ?thesis by (simp add: str_nat.simps digit_val_digit_char)
  next
    case False
    with 1 have ih: "parse_digits 0 (str_nat (n div 10)) = Some (n div 10)" by simp
    have "n mod 10 < 10" by simp
    then have "digit_val (digit_char (n mod 10)) = Some (n mod 10)" by (rule digit_val_digit_char)
    with False ih have "parse_digits 0 (str_nat n) = Some (10 * (n div 10) + n mod 10)"
      by (subst str_nat.simps) (simp add: parse_digits_snoc)
    then show ?thesis by simp
  qed
qed

lemma str_nat_digits: "str_nat n \<noteq> [] \<and> (\<forall>c \<in> set (str_nat n). digit_val c \<noteq> None)"
proof (induction n rule: str_nat.induct)
  case (1 n)
  show ?case
  proof (cases "n < 10")
    case True
    then show ?thesis by (simp add: str_nat.simps digit_val_digit_char)
  next
    case False
    have "n mod 10 < 10" by simp
    then have d: "digit_val (digit_char (n mod 10)) = Some (n mod 10)" by (rule digit_val_digit_char)
    from False have e: "str_nat n = str_nat (n div 10) @ [digit_char (n mod 10)]"
      by (subst str_nat.simps) simp
    from False 1 have "\<forall>c \<in> set (str_nat (n div 10)). digit_val c \<noteq> None" by simp
    with d e show ?thesis by auto
  qed
qed

lemma long_str_nat: "long (str_nat n) = Inr (int n)"
proof -
  from str_nat_digits [of n] obtain c cs where s: "str_nat n = c # cs" "digit_val c \<noteq> None"
    by (cases "str_nat n") auto
  from s(2) have "c \<noteq> CHR ''-''" "c \<noteq> CHR ''+''" by (auto simp: digit_val_def)
  with s(1) have "long (str_nat n) = (case parse_nat (str_nat n) of None \<Rightarrow> Inl ValueError | Some m \<Rightarrow> Inr (int m))"
    by (simp add: long_def)
  with s(1) parse_digits_str_nat [of n] show ?thesis by (simp add: parse_nat_def)
qed

lemma long_str_int: "long (str_int i) = Inr i"
proof (cases "i < 0")
  case True
  from str_nat_digits [of "nat (- i)"] parse_digits_str_nat [of "nat (- i)"]
  have "parse_nat (str_nat (nat (- i))) = Some (nat (- i))" by (simp add: parse_nat_def)
  with True show ?thesis by (simp add: str_int_def long_def)
next
  case False
  with long_str_nat [of "nat i"] show ?thesis by (simp add: str_int_def)
qed

lemma decode_encode_uuid:
  "is_uuid_string (PStr (encode_uuid (get_uuid u)))
   \<and> decode_uuid (encode_uuid (get_uuid u)) = Inr u"
  by (simp add: is_uuid_string_def encode_uuid_def decode_uuid_def get_uuid_def
                butlast_append long_str_int)

lemma replace_uuid_no_storables: "storables (replace_uuid v) = {}"
  by (induction v rule: replace_uuid.induct) auto

lemma replace_uuid_id:
  "storables v = {} \<Longrightarrow> replace_uuid v = v"
proof (induction v rule: replace_uuid.induct)
  case (1 u)
  then show ?case by simp
next
  case (2 items)
  have "map (\<lambda>(k, v). (k, replace_uuid v)) items = map (\<lambda>kv. kv) items"
  proof (rule map_cong [OF refl])
    fix kv assume kv: "kv \<in> set items"
    obtain k v where e: "(k, v) = kv" by (cases kv) simp
    from kv e "2.prems" have "storables v = {}" by fastforce
    then have "replace_uuid v = v" by (rule "2.IH" [OF kv e])
    with e [symmetric] show "(case kv of (k, v) \<Rightarrow> (k, replace_uuid v)) = kv" by simp
  qed
  then show ?case by simp
next
  case (3 xs)
  have "map replace_uuid xs = map (\<lambda>x. x) xs"
  proof (rule map_cong [OF refl])
    fix x assume x: "x \<in> set xs"
    with "3.prems" have "storables x = {}" by simp
    with "3.IH" [OF x] show "replace_uuid x = x" by simp
  qed
  then show ?case by simp
next
  case (4 xs)
  have "map replace_uuid xs = map (\<lambda>x. x) xs"
  proof (rule map_cong [OF refl])
    fix x assume x: "x \<in> set xs"
    with "4.prems" have "storables x = {}" by simp
    with "4.IH" [OF x] show "replace_uuid x = x" by simp
  qed
  then show ?case by simp
qed simp_all

text \<open>
  What decoding does achieve: a dictionary whose top-level values are as
  \<open>top_level_value\<close> says comes back as it was.
\<close>

lemma from_dict_with_uuids_top_level:
  assumes "\<forall>(k, v) \<in> set dct. top_level_value existing_uuids v"
  shows "from_dict_with_uuids (to_dict_with_uuids dct) existing_uuids = Inr dct"
proof -
  have enc: "to_dict_with_uuids dct = map (\<lambda>(k, v). (k, replace_uuid v)) dct"
    by (simp add: to_dict_with_uuids_def)
  have "from_dict_with_uuids (map (\<lambda>(k, v). (k, replace_uuid v)) dct) existing_uuids = Inr dct"
    using assms
  proof (induction dct)
    case Nil
    show ?case by simp
  next
    case (Cons kv dct)
    obtain k v where kv: "kv = (k, v)" by (cases kv)
    from Cons have ih:
      "from_dict_with_uuids (map (\<lambda>(k, v). (k, replace_uuid v)) dct) existing_uuids = Inr dct"
      by simp
    from Cons.prems kv have tl: "top_level_value existing_uuids v" by simp
    show ?case
    proof (cases "\<exists>u. v = Storable u")
      case True
      then obtain u where u: "v = Storable u" by blast
      with tl have "existing_uuids u = Some (Storable u)" by (simp add: top_level_value_def)
      with u kv ih decode_encode_uuid [of u] show ?thesis by simp
    next
      case False
      with tl have "storables v = {}" "\<not> is_uuid_string v"
        by (cases v; simp add: top_level_value_def)+
      with replace_uuid_id [of v] kv ih show ?thesis by simp
    qed
  qed
  with enc show ?thesis by simp
qed

section \<open>Topological order\<close>

lemma ready_iff: "ready g taken n \<longleftrightarrow> (\<forall>u. (u, n) \<in> set (edges g) \<longrightarrow> u \<in> set taken)"
proof
  assume r: "ready g taken n"
  show "\<forall>u. (u, n) \<in> set (edges g) \<longrightarrow> u \<in> set taken"
  proof (intro allI impI)
    fix u assume "(u, n) \<in> set (edges g)"
    with r have "if snd (u, n) = n then fst (u, n) \<in> set taken else True"
      unfolding ready_def list_all_iff by blast
    then show "u \<in> set taken" by simp
  qed
next
  assume a: "\<forall>u. (u, n) \<in> set (edges g) \<longrightarrow> u \<in> set taken"
  show "ready g taken n"
    unfolding ready_def list_all_iff
  proof
    fix e assume e: "e \<in> set (edges g)"
    show "if snd e = n then fst e \<in> set taken else True"
    proof (cases "snd e = n")
      case True
      with e have "(fst e, n) \<in> set (edges g)" by (metis prod.collapse)
      with a True show ?thesis by simp
    next
      case False
      then show ?thesis by simp
    qed
  qed
qed

lemma preds_first_snoc:
  assumes "preds_first E xs" and "\<forall>u. (u, n) \<in> E \<longrightarrow> u \<in> set xs"
  shows "preds_first E (xs @ [n])"
  unfolding preds_first_def
proof (intro allI impI)
  fix i u
  assume i: "i < length (xs @ [n])" and e: "(u, (xs @ [n]) ! i) \<in> E"
  show "u \<in> set (take i (xs @ [n]))"
  proof (cases "i < length xs")
    case True
    with e have "(u, xs ! i) \<in> E" by (simp add: nth_append)
    with assms(1) True have "u \<in> set (take i xs)" by (simp add: preds_first_def)
    with True show ?thesis by simp
  next
    case False
    with i have "i = length xs" by simp
    with e assms(2) show ?thesis by simp
  qed
qed

lemma topological_order_sound:
  assumes "topological_order g taken todo = Inr order"
    and "preds_first (set (edges g)) taken"
  shows "preds_first (set (edges g)) order \<and> set order = set taken \<union> set todo"
  using assms
proof (induction g taken todo rule: topological_order.induct)
  case (1 g taken todo)
  show ?case
  proof (cases "todo = []")
    case True
    with "1.prems" show ?thesis by (simp add: topological_order.simps)
  next
    case False
    with "1.prems"(1) obtain n where n: "find (ready g taken) todo = Some n"
      and rec: "topological_order g (taken @ [n]) (removeAll n todo) = Inr order"
      by (subst (asm) topological_order.simps) (auto split: option.splits)
    from n have mem: "n \<in> set todo" and rdy: "ready g taken n"
      by (auto simp: find_Some_iff)
    from rdy have "\<forall>u. (u, n) \<in> set (edges g) \<longrightarrow> u \<in> set taken" by (simp add: ready_iff)
    with "1.prems"(2) have "preds_first (set (edges g)) (taken @ [n])" by (rule preds_first_snoc)
    with "1.IH" [OF False n rec]
    have "preds_first (set (edges g)) order"
      "set order = set (taken @ [n]) \<union> set (removeAll n todo)" by simp_all
    with mem show ?thesis by auto
  qed
qed

lemma topological_order_distinct:
  assumes "topological_order g taken todo = Inr order"
    and "distinct taken" and "set taken \<inter> set todo = {}"
  shows "distinct order"
  using assms
proof (induction g taken todo rule: topological_order.induct)
  case (1 g taken todo)
  show ?case
  proof (cases "todo = []")
    case True
    with "1.prems" show ?thesis by (simp add: topological_order.simps)
  next
    case False
    with "1.prems"(1) obtain n where n: "find (ready g taken) todo = Some n"
      and rec: "topological_order g (taken @ [n]) (removeAll n todo) = Inr order"
      by (subst (asm) topological_order.simps) (auto split: option.splits)
    from n have mem: "n \<in> set todo" by (auto simp: find_Some_iff)
    with "1.prems"(2,3) have d: "distinct (taken @ [n])" by auto
    from "1.prems"(3) have "set (taken @ [n]) \<inter> set (removeAll n todo) = {}" by auto
    with "1.IH" [OF False n rec d] show ?thesis by simp
  qed
qed

lemma topological_order_complete:
  assumes "acyclic (set (edges g))"
    and "Field (set (edges g)) \<subseteq> set taken \<union> set todo"
  shows "\<exists>order. topological_order g taken todo = Inr order"
  using assms
proof (induction g taken todo rule: topological_order.induct)
  case (1 g taken todo)
  show ?case
  proof (cases "todo = []")
    case True
    then show ?thesis by (simp add: topological_order.simps)
  next
    case False
    have "wf (set (edges g))"
      using "1.prems"(1) by (intro finite_acyclic_wf) simp_all
    moreover from False obtain t where "t \<in> set todo" by (cases todo) auto
    ultimately obtain z where z: "z \<in> set todo" "\<And>y. (y, z) \<in> set (edges g) \<Longrightarrow> y \<notin> set todo"
      by (rule wfE_min) blast
    have "ready g taken z"
      unfolding ready_iff
    proof (intro allI impI)
      fix u assume e: "(u, z) \<in> set (edges g)"
      then have "u \<in> Field (set (edges g))" by (auto simp: Field_def)
      with "1.prems"(2) z(2) [OF e] show "u \<in> set taken" by auto
    qed
    with z(1) have "find (ready g taken) todo \<noteq> None" by (auto simp: find_None_iff)
    then obtain n where n: "find (ready g taken) todo = Some n" by auto
    then have mem: "n \<in> set todo" by (auto simp: find_Some_iff)
    from "1.prems"(2) have "Field (set (edges g)) \<subseteq> set (taken @ [n]) \<union> set (removeAll n todo)"
      by auto
    from "1.IH" [OF False n "1.prems"(1) this]
    obtain order where "topological_order g (taken @ [n]) (removeAll n todo) = Inr order" by blast
    with False n show ?thesis by (subst topological_order.simps) simp
  qed
qed

lemma first_pos_less:
  assumes "x \<in> set (take i xs)"
  shows "first_pos xs x < i"
proof -
  from assms obtain k where k: "k < length (take i xs)" "take i xs ! k = x"
    by (auto simp: in_set_conv_nth)
  then have ki: "k < i" "k < length xs" "xs ! k = x" by simp_all
  have "first_pos xs x \<le> k"
  proof (rule ccontr)
    assume "\<not> first_pos xs x \<le> k"
    then have lt: "k < length (takeWhile (\<lambda>y. y \<noteq> x) xs)" by (simp add: first_pos_def)
    then have "takeWhile (\<lambda>y. y \<noteq> x) xs ! k = xs ! k" by (rule takeWhile_nth)
    moreover from lt have "takeWhile (\<lambda>y. y \<noteq> x) xs ! k \<in> set (takeWhile (\<lambda>y. y \<noteq> x) xs)"
      by simp
    then have "takeWhile (\<lambda>y. y \<noteq> x) xs ! k \<noteq> x" by (auto dest: set_takeWhileD)
    ultimately show False using ki(3) by simp
  qed
  with ki(1) show ?thesis by simp
qed

lemma first_pos_nth:
  assumes "x \<in> set xs"
  shows "first_pos xs x < length xs \<and> xs ! first_pos xs x = x"
proof -
  have "length (takeWhile (\<lambda>y. y \<noteq> x) xs) \<noteq> length xs"
  proof
    assume eq: "length (takeWhile (\<lambda>y. y \<noteq> x) xs) = length xs"
    have "takeWhile (\<lambda>y. y \<noteq> x) xs = take (length (takeWhile (\<lambda>y. y \<noteq> x) xs)) xs"
      by (rule takeWhile_eq_take)
    with eq have "takeWhile (\<lambda>y. y \<noteq> x) xs = xs" by simp
    then have "\<forall>y \<in> set xs. y \<noteq> x" by simp
    with assms show False by blast
  qed
  with length_takeWhile_le [of "\<lambda>y. y \<noteq> x" xs]
  have lt: "length (takeWhile (\<lambda>y. y \<noteq> x) xs) < length xs" by simp
  from nth_length_takeWhile [OF this] lt show ?thesis by (simp add: first_pos_def)
qed

lemma preds_first_acyclic:
  assumes "preds_first E xs" and "\<forall>(u, v) \<in> E. v \<in> set xs"
  shows "acyclic E"
proof -
  have "E \<subseteq> inv_image less_than (first_pos xs)"
  proof
    fix e assume e: "e \<in> E"
    obtain u v where uv: "e = (u, v)" by (cases e)
    with e assms(2) have "v \<in> set xs" by auto
    from first_pos_nth [OF this]
    have p: "first_pos xs v < length xs" "xs ! first_pos xs v = v" by simp_all
    with assms(1) e uv have "u \<in> set (take (first_pos xs v) xs)"
      by (auto simp: preds_first_def)
    then have "first_pos xs u < first_pos xs v" by (rule first_pos_less)
    with uv show "e \<in> inv_image less_than (first_pos xs)" by simp
  qed
  moreover have "wf (inv_image less_than (first_pos xs))" by (intro wf_inv_image wf_less_than)
  ultimately have "wf E" by (rule wf_subset [rotated])
  then show ?thesis by (rule wf_acyclic)
qed

lemma preds_first_Nil: "preds_first E []"
  by (simp add: preds_first_def)

lemma is_directed_acyclic_graph_iff:
  assumes "Field (set (edges g)) \<subseteq> set (nodes g)"
  shows "is_directed_acyclic_graph g \<longleftrightarrow> acyclic (set (edges g))"
proof
  assume "is_directed_acyclic_graph g"
  then obtain order where o: "topological_order g [] (nodes g) = Inr order"
    by (auto simp: is_directed_acyclic_graph_def topological_sort_def split: sum.splits)
  from topological_order_sound [OF o preds_first_Nil]
  have pf: "preds_first (set (edges g)) order" and s: "set order = set (nodes g)" by simp_all
  have "\<forall>(u, v) \<in> set (edges g). v \<in> set order"
  proof (clarify)
    fix u v assume "(u, v) \<in> set (edges g)"
    then have "v \<in> Field (set (edges g))" by (auto simp: Field_def)
    with assms s show "v \<in> set order" by auto
  qed
  with pf show "acyclic (set (edges g))" by (rule preds_first_acyclic)
next
  assume "acyclic (set (edges g))"
  moreover from assms have "Field (set (edges g)) \<subseteq> set [] \<union> set (nodes g)" by simp
  ultimately obtain order where "topological_order g [] (nodes g) = Inr order"
    using topological_order_complete by blast
  then show "is_directed_acyclic_graph g"
    by (simp add: is_directed_acyclic_graph_def topological_sort_def)
qed
section \<open>The reconstruction graph\<close>

lemma add_node_sets:
  "set (nodes (add_node g n)) = insert n (set (nodes g)) \<and> edges (add_node g n) = edges g"
  by (auto simp: add_node_def)

lemma add_edge_sets:
  "set (edges (add_edge g e)) = insert e (set (edges g))
   \<and> set (nodes (add_edge g e)) = {fst e, snd e} \<union> set (nodes g)"
proof -
  let ?g' = "add_node (add_node g (fst e)) (snd e)"
  have n: "set (nodes ?g') = {fst e, snd e} \<union> set (nodes g)" and e: "edges ?g' = edges g"
    using add_node_sets [of "add_node g (fst e)" "snd e"] add_node_sets [of g "fst e"] by auto
  show ?thesis
  proof (cases "e \<in> set (edges ?g')")
    case True
    then have "add_edge g e = ?g'" by (simp add: add_edge_def Let_def)
    with n e True show ?thesis by auto
  next
    case False
    then have "add_edge g e = DiGraph (nodes ?g') (edges ?g' @ [e])"
      by (simp add: add_edge_def Let_def)
    with n e show ?thesis by auto
  qed
qed

lemma add_edges_from_sets:
  "set (edges (add_edges_from g es)) = set es \<union> set (edges g)
   \<and> set (nodes (add_edges_from g es)) = fst ` set es \<union> snd ` set es \<union> set (nodes g)"
proof (induction es arbitrary: g)
  case Nil
  show ?case by (simp add: add_edges_from_def)
next
  case (Cons e es)
  have step: "add_edges_from g (e # es) = add_edges_from (add_edge g e) es"
    by (simp add: add_edges_from_def)
  from Cons [of "add_edge g e"] add_edge_sets [of g e] show ?case
    unfolding step by auto
qed

lemma add_dependencies_sets:
  "set (edges (add_dependencies g deps)) = dep_edges deps \<union> set (edges g)
   \<and> set (nodes (add_dependencies g deps)) = Field (dep_edges deps) \<union> set (nodes g)"
proof (induction deps arbitrary: g)
  case Nil
  show ?case by (simp add: add_dependencies_def dep_edges_def Field_def)
next
  case (Cons d deps)
  obtain a bs where d: "d = (a, bs)" by (cases d)
  let ?g' = "if bs \<noteq> [] then add_edges_from g (map (\<lambda>b. (a, b)) bs) else g"
  have step: "add_dependencies g (d # deps) = add_dependencies ?g' deps"
    by (simp add: add_dependencies_def d)
  have e: "set (edges ?g') = Pair a ` set bs \<union> set (edges g)"
    using add_edges_from_sets [of g "map (\<lambda>b. (a, b)) bs"] by auto
  have n: "set (nodes ?g') = Field (Pair a ` set bs) \<union> set (nodes g)"
  proof (cases "bs = []")
    case True
    then show ?thesis by (simp add: Field_def)
  next
    case False
    then have "fst ` set (map (\<lambda>b. (a, b)) bs) = {a}" by (cases bs) auto
    moreover have "snd ` set (map (\<lambda>b. (a, b)) bs) = set bs" by force
    moreover from False have "Field (Pair a ` set bs) = {a} \<union> set bs"
      by (cases bs) (auto simp: Field_def Domain_unfold Range_iff image_iff)
    ultimately show ?thesis
      using False add_edges_from_sets [of g "map (\<lambda>b. (a, b)) bs"] by auto
  qed
  have de: "dep_edges (d # deps) = Pair a ` set bs \<union> dep_edges deps"
    by (simp add: dep_edges_def d)
  from Cons [of ?g'] have
    "set (edges (add_dependencies g (d # deps))) = dep_edges deps \<union> set (edges ?g')"
    "set (nodes (add_dependencies g (d # deps))) = Field (dep_edges deps) \<union> set (nodes ?g')"
    unfolding step by simp_all
  with e n de show ?case by (simp add: Field_Un Un_ac)
qed

lemma add_dependencies_empty:
  "set (edges (add_dependencies (DiGraph [] []) deps)) = dep_edges deps
   \<and> set (nodes (add_dependencies (DiGraph [] []) deps)) = Field (dep_edges deps)"
  using add_dependencies_sets [of "DiGraph [] []" deps] by simp

lemma dependency_dag_None:
  "dependency_dag deps None =
     (if acyclic (dep_edges deps) then Inr (add_dependencies (DiGraph [] []) deps)
      else Inl (RuntimeError ''Reconstruction DAG not acyclic?!?!''))"
proof -
  let ?g = "add_dependencies (DiGraph [] []) deps"
  from add_dependencies_empty [of deps]
  have "Field (set (edges ?g)) \<subseteq> set (nodes ?g)" by simp
  then have "is_directed_acyclic_graph ?g \<longleftrightarrow> acyclic (set (edges ?g))"
    by (rule is_directed_acyclic_graph_iff)
  with add_dependencies_empty [of deps] show ?thesis
    by (simp add: dependency_dag_def)
qed

lemmas dag_eval =
  dependency_dag_def add_dependencies_def add_edges_from_def add_edge_def add_node_def
  is_directed_acyclic_graph_def topological_sort_def topological_order.simps ready_def
  dag_reload_order_def Let_def

lemma chain_dependency_dag:
  "dependency_dag chain_dependencies None = Inr (DiGraph [1, 2, 3] [(1, 2), (2, 3)])"
  by (simp add: chain_dependencies_def dag_eval)

lemma cyclic_dependency_dag:
  "dependency_dag cyclic_dependencies None = Inl (RuntimeError ''Reconstruction DAG not acyclic?!?!'')"
  by (simp add: cyclic_dependencies_def dag_eval)

lemma chain_acyclic: "acyclic (dep_edges chain_dependencies)"
proof (rule ccontr)
  assume "\<not> acyclic (dep_edges chain_dependencies)"
  then have "dependency_dag chain_dependencies None
               = Inl (RuntimeError ''Reconstruction DAG not acyclic?!?!'')"
    by (simp add: dependency_dag_None)
  with chain_dependency_dag show False by simp
qed

lemma cyclic_not_acyclic: "\<not> acyclic (dep_edges cyclic_dependencies)"
proof
  assume "acyclic (dep_edges cyclic_dependencies)"
  then have "\<exists>dag. dependency_dag cyclic_dependencies None = Inr dag"
    by (simp add: dependency_dag_None)
  with cyclic_dependency_dag show False by simp
qed

text \<open>
  C2. The graph of the mapping has an edge from each identity to every identity it
  refers to. If that graph has a cycle, \<open>dependency_dag\<close> raises (the
  \<open>RuntimeError\<close> that the specification calls \<open>CyclicReferenceError\<close>) and returns
  no graph, so nothing can be reconstructed from it. If it has none, \<open>dependency_dag\<close>
  returns the graph with exactly these edges, on exactly the identities they touch.
\<close>

theorem dependency_dag_cyclic_iff:
  "(\<not> acyclic (dep_edges deps) \<longrightarrow>
      dependency_dag deps None = Inl (RuntimeError ''Reconstruction DAG not acyclic?!?!''))
   \<and> (acyclic (dep_edges deps) \<longrightarrow>
      (\<exists>dag. dependency_dag deps None = Inr dag
             \<and> set (edges dag) = dep_edges deps
             \<and> set (nodes dag) = Field (dep_edges deps)))"
  using add_dependencies_empty [of deps] by (simp add: dependency_dag_None)

theorem dependency_dag_cyclic_iff_witness:
  "\<not> acyclic (dep_edges cyclic_dependencies)
   \<and> dependency_dag cyclic_dependencies None
       = Inl (RuntimeError ''Reconstruction DAG not acyclic?!?!'')
   \<and> acyclic (dep_edges chain_dependencies)
   \<and> dependency_dag chain_dependencies None = Inr (DiGraph [1, 2, 3] [(1, 2), (2, 3)])"
  using dependency_dag_cyclic_iff [of cyclic_dependencies]
        dependency_dag_cyclic_iff [of chain_dependencies]
        cyclic_not_acyclic chain_acyclic chain_dependency_dag
  by simp


lemma index_pair_of_preds_first:
  assumes pf: "preds_first E xs" and d: "distinct xs" and e: "(a, b) \<in> E" and b: "b \<in> set xs"
  shows "\<exists>i j. i < j \<and> j < length xs \<and> xs ! i = a \<and> xs ! j = b"
proof -
  from b obtain j where j: "j < length xs" "xs ! j = b" by (auto simp: in_set_conv_nth)
  with pf e have "a \<in> set (take j xs)" by (auto simp: preds_first_def)
  then obtain i where i: "i < length (take j xs)" "take j xs ! i = a"
    by (auto simp: in_set_conv_nth)
  then have "i < j" "xs ! i = a" by simp_all
  with j show ?thesis by blast
qed

text \<open>
  C3. For an acyclic dependency graph, the graph is built and the reload order is
  computed without error; the order lists every identity of the graph exactly once; and
  whenever \<open>a\<close> refers to \<open>b\<close>, \<open>b\<close> stands strictly before \<open>a\<close> in the order, so a
  loop over the order meets every dependency of a node before the node itself.
\<close>

theorem dag_reload_order_dependencies_first:
  assumes "acyclic (dep_edges deps)"
  shows "\<exists>dag order. dependency_dag deps None = Inr dag
           \<and> dag_reload_order dag = Inr order
           \<and> distinct order
           \<and> set order = Field (dep_edges deps)
           \<and> (\<forall>a b. (a, b) \<in> dep_edges deps \<longrightarrow>
                 (\<exists>i j. i < j \<and> j < length order \<and> order ! i = b \<and> order ! j = a))"
proof -
  let ?g = "add_dependencies (DiGraph [] []) deps"
  from assms have dag: "dependency_dag deps None = Inr ?g" by (simp add: dependency_dag_None)
  from add_dependencies_empty [of deps]
  have E: "set (edges ?g) = dep_edges deps" and N: "set (nodes ?g) = Field (dep_edges deps)"
    by simp_all
  from assms E N have "\<exists>order. topological_order ?g [] (nodes ?g) = Inr order"
    by (intro topological_order_complete) simp_all
  then obtain ts where ts: "topological_order ?g [] (nodes ?g) = Inr ts" by blast
  from topological_order_sound [OF ts preds_first_Nil] E N
  have pf: "preds_first (dep_edges deps) ts" and s: "set ts = Field (dep_edges deps)" by simp_all
  from topological_order_distinct [OF ts] have dist: "distinct ts" by simp
  have order: "dag_reload_order ?g = Inr (rev ts)"
    using ts by (simp add: dag_reload_order_def topological_sort_def)
  have "\<exists>i j. i < j \<and> j < length (rev ts) \<and> rev ts ! i = b \<and> rev ts ! j = a"
    if ab: "(a, b) \<in> dep_edges deps" for a b
  proof -
    from ab s have "b \<in> set ts" by (auto simp: Field_def)
    from index_pair_of_preds_first [OF pf dist ab this]
    obtain i j where ij: "i < j" "j < length ts" "ts ! i = a" "ts ! j = b" by blast
    let ?i = "length ts - Suc j" and ?j = "length ts - Suc i"
    from ij have "?i < ?j" "?j < length (rev ts)" by simp_all
    moreover from ij have "rev ts ! ?i = b" "rev ts ! ?j = a" by (simp_all add: rev_nth)
    ultimately show ?thesis by blast
  qed
  with dag order dist s show ?thesis by auto
qed

theorem dag_reload_order_dependencies_first_witness:
  "acyclic (dep_edges chain_dependencies)
   \<and> dependency_dag chain_dependencies None = Inr (DiGraph [1, 2, 3] [(1, 2), (2, 3)])
   \<and> dag_reload_order (DiGraph [1, 2, 3] [(1, 2), (2, 3)]) = Inr [3, 2, 1 :: nat]"
proof -
  from dag_reload_order_dependencies_first [OF chain_acyclic]
  obtain dag order where r: "dependency_dag chain_dependencies None = Inr dag"
    "dag_reload_order dag = Inr order" by blast
  from r(1) chain_dependency_dag have "dag = DiGraph [1, 2, 3] [(1, 2), (2, 3)]" by simp
  moreover have "dag_reload_order (DiGraph [1, 2, 3] [(1, 2), (2, 3)]) = Inr [3, 2, 1 :: nat]"
    by (simp add: dag_eval)
  ultimately show ?thesis using chain_acyclic chain_dependency_dag by simp
qed

section \<open>The breadth-first closure\<close>

lemma new_table_rows_set:
  "set (new_table_rows backend s) = {r \<in> set backend. row_uuid r \<in> new_uuids s}"
  by (auto simp: new_table_rows_def load_table_data_def load_uuids_table_def)

lemma loading_step_Inr:
  assumes "loading_step loads backend schema s = Inr s'"
  shows "known_uuids s' = known_uuids s \<union> new_uuids s
       \<and> all_table_rows s' = all_table_rows s @ new_table_rows backend s
       \<and> (new_table_rows backend s = [] \<longrightarrow>
            uuid_list s' = [] \<and> uuid_to_table s' = uuid_to_table s
            \<and> lazy_uuids s' = lazy_uuids s \<and> dependencies s' = dependencies s)"
proof -
  let ?rows = "load_table_data backend (load_uuids_table backend (new_uuids s))"
  let ?u2t = "fold (\<lambda>r m. m(row_uuid r \<mapsto> uuid_row_to_table_name backend r))
                (load_uuids_table backend (new_uuids s)) (uuid_to_table s)"
  from assms obtain ul lz deps where
    sc: "scan_rows loads schema ?u2t ?rows [] (lazy_uuids s) (dependencies s) = Inr (ul, lz, deps)"
    and s': "s' = \<lparr>uuid_list = ul, known_uuids = known_uuids s \<union> new_uuids s,
                   uuid_to_table = ?u2t, all_table_rows = all_table_rows s @ ?rows,
                   lazy_uuids = lz, dependencies = deps\<rparr>"
    by (auto simp: loading_step_def Let_def split: sum.splits)
  have "uuid_list s' = [] \<and> uuid_to_table s' = uuid_to_table s
        \<and> lazy_uuids s' = lazy_uuids s \<and> dependencies s' = dependencies s"
    if "new_table_rows backend s = []"
  proof -
    from that have e: "?rows = []" "load_uuids_table backend (new_uuids s) = []"
      by (simp_all add: new_table_rows_def load_table_data_def)
    with sc have "ul = []" "lz = lazy_uuids s" "deps = dependencies s" by simp_all
    with s' e show ?thesis by simp
  qed
  with s' show ?thesis by (simp add: new_table_rows_def)
qed

lemma loading_step_no_rows:
  assumes "new_table_rows backend s = []"
  shows "loading_step loads backend schema s
           = Inr (s\<lparr>uuid_list := [], known_uuids := known_uuids s \<union> new_uuids s\<rparr>)"
proof -
  from assms have "load_uuids_table backend (new_uuids s) = []"
    by (simp add: new_table_rows_def load_table_data_def)
  then show ?thesis by (simp add: loading_step_def load_table_data_def)
qed

lemma unfetched_step:
  assumes "loading_step loads backend schema s = Inr s'"
  shows "unfetched backend s' \<le> unfetched backend s
       \<and> (new_table_rows backend s \<noteq> [] \<longrightarrow> unfetched backend s' < unfetched backend s)"
proof -
  from loading_step_Inr [OF assms]
  have k: "known_uuids s' = known_uuids s \<union> new_uuids s" by simp
  have fin: "finite (stored_uuids backend - known_uuids s)" by (simp add: stored_uuids_def)
  from k have sub: "stored_uuids backend - known_uuids s' \<subseteq> stored_uuids backend - known_uuids s"
    by auto
  then have le: "unfetched backend s' \<le> unfetched backend s"
    unfolding unfetched_def using fin by (rule card_mono [rotated])
  have "unfetched backend s' < unfetched backend s" if "new_table_rows backend s \<noteq> []"
  proof -
    from that obtain r where "r \<in> set (new_table_rows backend s)"
      by (cases "new_table_rows backend s") auto
    then have r: "r \<in> set backend" "row_uuid r \<in> new_uuids s" by (simp_all add: new_table_rows_set)
    then have "row_uuid r \<in> stored_uuids backend - known_uuids s"
      by (auto simp: stored_uuids_def new_uuids_def)
    moreover from r k have "row_uuid r \<notin> stored_uuids backend - known_uuids s'" by simp
    ultimately have "stored_uuids backend - known_uuids s' \<subset> stored_uuids backend - known_uuids s"
      using sub by blast
    then show ?thesis unfolding unfetched_def using fin by (intro psubset_card_mono)
  qed
  with le show ?thesis by blast
qed

lemma loading_measure_step:
  assumes "uuid_list s \<noteq> []" and "loading_step loads backend schema s = Inr s'"
  shows "loading_measure backend s' < loading_measure backend s"
proof (cases "new_table_rows backend s = []")
  case True
  with loading_step_Inr [OF assms(2)] have "uuid_list s' = []" by simp
  with unfetched_step [OF assms(2)] assms(1) show ?thesis by (simp add: loading_measure_def)
next
  case False
  with unfetched_step [OF assms(2)] have "unfetched backend s' < unfetched backend s" by simp
  then show ?thesis by (simp add: loading_measure_def)
qed

lemma loading_loop_terminates:
  "\<exists>r. loading_loop loads backend schema s = Some r"
proof (induction "loading_measure backend s" arbitrary: s rule: less_induct)
  case less
  show ?case
  proof (cases "uuid_list s = []")
    case True
    then show ?thesis by (subst loading_loop.simps) simp
  next
    case False
    show ?thesis
    proof (cases "loading_step loads backend schema s")
      case (Inl e)
      with False show ?thesis by (subst loading_loop.simps) simp
    next
      case (Inr s')
      from loading_measure_step [OF False Inr] less
      obtain r where "loading_loop loads backend schema s' = Some r" by blast
      with False Inr show ?thesis by (subst loading_loop.simps) simp
    qed
  qed
qed

lemma fetched_once_step:
  assumes d: "distinct (map row_uuid backend)"
    and f: "fetched_once s"
    and st: "loading_step loads backend schema s = Inr s'"
  shows "fetched_once s'"
proof -
  from loading_step_Inr [OF st]
  have k: "known_uuids s' = known_uuids s \<union> new_uuids s"
    and a: "all_table_rows s' = all_table_rows s @ new_table_rows backend s" by simp_all
  have rows: "new_table_rows backend s = filter (\<lambda>r. row_uuid r \<in> new_uuids s) backend"
    by (simp add: new_table_rows_def load_table_data_def load_uuids_table_def)
  from d have dn: "distinct (map row_uuid (new_table_rows backend s))"
    unfolding rows by (rule distinct_map_filter)
  have disj: "row_uuid ` set (all_table_rows s) \<inter> row_uuid ` set (new_table_rows backend s) = {}"
    using f by (auto simp: fetched_once_def new_table_rows_set new_uuids_def)
  have sub: "row_uuid ` set (new_table_rows backend s) \<subseteq> new_uuids s"
    by (auto simp: new_table_rows_set)
  from f dn disj sub k a show ?thesis by (auto simp: fetched_once_def)
qed

lemma loading_loop_fetched_once:
  assumes "distinct (map row_uuid backend)" and "fetched_once s"
    and "loading_loop loads backend schema s = Some (Inr t)"
  shows "fetched_once t \<and> uuid_list t = []"
  using assms(2,3)
proof (induction "loading_measure backend s" arbitrary: s rule: less_induct)
  case less
  show ?case
  proof (cases "uuid_list s = []")
    case True
    with less.prems(2) have "t = s" by (subst (asm) loading_loop.simps) simp
    with True less.prems(1) show ?thesis by simp
  next
    case False
    show ?thesis
    proof (cases "loading_step loads backend schema s")
      case (Inl e)
      with False less.prems(2) show ?thesis by (subst (asm) loading_loop.simps) simp
    next
      case (Inr s')
      with False less.prems(2) have l: "loading_loop loads backend schema s' = Some (Inr t)"
        by (subst (asm) loading_loop.simps) simp
      from fetched_once_step [OF assms(1) less.prems(1) Inr] have f: "fetched_once s'" .
      from less.hyps [OF loading_measure_step [OF False Inr] f l] show ?thesis .
    qed
  qed
qed

lemma loading_loop_exit:
  assumes "set (uuid_list s) \<subseteq> known_uuids s"
  shows "loading_loop loads backend schema s = Some (Inr (s\<lparr>uuid_list := []\<rparr>))"
proof (cases "uuid_list s = []")
  case True
  then show ?thesis by (subst loading_loop.simps) simp
next
  case False
  from assms have n: "new_uuids s = {}" by (auto simp: new_uuids_def)
  then have "new_table_rows backend s = []"
    by (simp add: new_table_rows_def load_table_data_def load_uuids_table_def)
  from loading_step_no_rows [OF this, of loads schema] n
  have st: "loading_step loads backend schema s = Inr (s\<lparr>uuid_list := []\<rparr>)" by simp
  have "loading_loop loads backend schema (s\<lparr>uuid_list := []\<rparr>) = Some (Inr (s\<lparr>uuid_list := []\<rparr>))"
    by (subst loading_loop.simps) simp
  with False st show ?thesis by (subst loading_loop.simps) simp
qed
text \<open>
  C9. Whatever rows the backend holds and whatever identities are asked for, the closure
  returns (with the final variables, or with an exception raised while a row is scanned):
  it never runs forever. If the backend holds at most one row per identity, no identity
  has its row fetched twice. A pass through the loop never shrinks the set of known
  identities and makes it strictly larger whenever it fetches a row. And when no
  identity of the frontier is outside the known set, the loop ends without fetching
  anything more.
\<close>

theorem get_all_uuids_loading_terminates:
  "(\<exists>r. get_all_uuids_loading loads uuids backend schema existing_uuids = Some r)
   \<and> (distinct (map row_uuid backend) \<longrightarrow>
        (\<forall>t. get_all_uuids_loading loads uuids backend schema existing_uuids = Some (Inr t) \<longrightarrow>
             distinct (map row_uuid (all_table_rows t)) \<and> uuid_list t = []))
   \<and> (\<forall>s s'. loading_step loads backend schema s = Inr s' \<longrightarrow>
         known_uuids s \<subseteq> known_uuids s'
         \<and> (new_table_rows backend s \<noteq> [] \<longrightarrow> known_uuids s \<subset> known_uuids s'))
   \<and> (\<forall>s. set (uuid_list s) \<subseteq> known_uuids s \<longrightarrow>
         (\<exists>t. loading_loop loads backend schema s = Some (Inr t)
              \<and> all_table_rows t = all_table_rows s \<and> known_uuids t = known_uuids s))"
proof -
  let ?s0 = "\<lparr>uuid_list = uuids,
              known_uuids = dom (case existing_uuids of None \<Rightarrow> Map.empty | Some m \<Rightarrow> m),
              uuid_to_table = Map.empty, all_table_rows = [], lazy_uuids = [],
              dependencies = Map.empty\<rparr>"
  have p1: "\<exists>r. get_all_uuids_loading loads uuids backend schema existing_uuids = Some r"
    unfolding get_all_uuids_loading_def by (rule loading_loop_terminates)
  have p2: "distinct (map row_uuid (all_table_rows t)) \<and> uuid_list t = []"
    if d: "distinct (map row_uuid backend)"
      and r: "get_all_uuids_loading loads uuids backend schema existing_uuids = Some (Inr t)"
    for t
  proof -
    have "fetched_once ?s0" by (simp add: fetched_once_def)
    moreover from r have "loading_loop loads backend schema ?s0 = Some (Inr t)"
      by (simp add: get_all_uuids_loading_def)
    ultimately have "fetched_once t \<and> uuid_list t = []"
      using d by (intro loading_loop_fetched_once)
    then show ?thesis by (simp add: fetched_once_def)
  qed
  have p3: "known_uuids s \<subseteq> known_uuids s'
            \<and> (new_table_rows backend s \<noteq> [] \<longrightarrow> known_uuids s \<subset> known_uuids s')"
    if st: "loading_step loads backend schema s = Inr s'" for s s'
  proof -
    from loading_step_Inr [OF st] have k: "known_uuids s' = known_uuids s \<union> new_uuids s" by simp
    have "known_uuids s \<subset> known_uuids s'" if ne: "new_table_rows backend s \<noteq> []"
    proof -
      from ne obtain r where "r \<in> set (new_table_rows backend s)"
        by (cases "new_table_rows backend s") auto
      then have "row_uuid r \<in> new_uuids s" by (simp add: new_table_rows_set)
      then have "row_uuid r \<notin> known_uuids s" "row_uuid r \<in> known_uuids s \<union> new_uuids s"
        by (simp_all add: new_uuids_def)
      with k show ?thesis by auto
    qed
    with k show ?thesis by auto
  qed
  have p4: "\<exists>t. loading_loop loads backend schema s = Some (Inr t)
              \<and> all_table_rows t = all_table_rows s \<and> known_uuids t = known_uuids s"
    if "set (uuid_list s) \<subseteq> known_uuids s" for s
    using loading_loop_exit [OF that, of loads backend schema] by simp
  from p1 p2 p3 p4 show ?thesis by blast
qed

lemma example_closure:
  "fetched_uuids (get_all_uuids_loading no_json [''1''] example_backend example_schema None)
     = Some (Inr [''1'', ''2'', ''3''])"
  by (simp add: fetched_uuids_def get_all_uuids_loading_def loading_loop.simps
                loading_step_def new_uuids_def load_uuids_table_def load_table_data_def
                uuid_row_to_table_name_def example_backend_def example_schema_def
                uuids_from_table_row_def getattr_def Let_def)

theorem get_all_uuids_loading_terminates_witness:
  "distinct (map row_uuid example_backend)
   \<and> fetched_uuids (get_all_uuids_loading no_json [''1''] example_backend example_schema None)
       = Some (Inr [''1'', ''2'', ''3''])"
proof -
  have d: "distinct (map row_uuid example_backend)" by (simp add: example_backend_def)
  from get_all_uuids_loading_terminates [of no_json "[''1'']" example_backend example_schema None]
  obtain r where "get_all_uuids_loading no_json [''1''] example_backend example_schema None = Some r"
    by blast
  with example_closure d show ?thesis by simp
qed

section \<open>Saving is idempotent\<close>

lemma update_store_simps:
  "stores (update_store S nm f) nm' = (if nm' = nm then f (stores S nm) else stores S nm')"
  "obj_store (update_store S nm f) = obj_store S"
  by (simp_all add: update_store_def)

lemma store_grows_refl: "store_grows st st"
  by (simp add: store_grows_def)

lemma store_grows_trans:
  assumes "store_grows st1 st2" and "store_grows st2 st3"
  shows "store_grows st1 st3"
proof -
  from assms have n: "next_identity st1 \<le> next_identity st2" "next_identity st2 \<le> next_identity st3"
    by (simp_all add: store_grows_def)
  from assms have r: "row_ids st2 \<subseteq> row_ids st1 \<union> {next_identity st1 ..< next_identity st2}"
    "row_ids st3 \<subseteq> row_ids st2 \<union> {next_identity st2 ..< next_identity st3}"
    by (simp_all add: store_grows_def)
  have "row_ids st3 \<subseteq> row_ids st1 \<union> {next_identity st1 ..< next_identity st3}"
  proof
    fix j assume "j \<in> row_ids st3"
    with r(2) have "j \<in> row_ids st2 \<or> (next_identity st2 \<le> j \<and> j < next_identity st3)" by auto
    then show "j \<in> row_ids st1 \<union> {next_identity st1 ..< next_identity st3}"
    proof
      assume "j \<in> row_ids st2"
      with r(1) n show ?thesis by auto
    next
      assume "next_identity st2 \<le> j \<and> j < next_identity st3"
      with n show ?thesis by auto
    qed
  qed
  with n assms show ?thesis by (simp add: store_grows_def)
qed

lemma storage_grows_refl: "storage_grows S S"
  by (simp add: storage_grows_def store_grows_refl)

lemma storage_grows_trans:
  assumes "storage_grows S1 S2" and "storage_grows S2 S3"
  shows "storage_grows S1 S3"
  using assms store_grows_trans unfolding storage_grows_def by metis

lemma store_write_grows:
  assumes g: "store_grows (st\<lparr>next_identity := Suc (next_identity st)\<rparr>) st2"
  shows "store_grows st
           (st2\<lparr>store_rows := store_rows st2 @ [(next_identity st, ids)],
                store_index := (store_index st2)(ob \<mapsto> next_identity st),
                store_cache := (store_cache st2)(next_identity st \<mapsto> ob)\<rparr>)"
proof -
  let ?i = "next_identity st"
  let ?st1 = "st\<lparr>next_identity := Suc ?i\<rparr>"
  let ?st' = "st2\<lparr>store_rows := store_rows st2 @ [(?i, ids)],
                   store_index := (store_index st2)(ob \<mapsto> ?i),
                   store_cache := (store_cache st2)(?i \<mapsto> ob)\<rparr>"
  from g have n: "Suc ?i \<le> next_identity st2"
    and r: "row_ids st2 \<subseteq> row_ids st \<union> {Suc ?i ..< next_identity st2}"
    and ok: "store_ok ?st1 \<longrightarrow> store_ok st2"
    by (simp_all add: store_grows_def row_ids_def)
  have ids': "row_ids ?st' = insert ?i (row_ids st2)" by (auto simp: row_ids_def)
  have a: "next_identity st \<le> next_identity ?st'" using n by simp
  have b: "row_ids ?st' \<subseteq> row_ids st \<union> {?i ..< next_identity ?st'}"
    using r n unfolding ids' by auto
  have c: "store_ok ?st'" if s: "store_ok st"
  proof -
    from s have low: "\<forall>j \<in> row_ids st. j < ?i" by (simp add: store_ok_def)
    from s have "store_ok ?st1" by (auto simp: store_ok_def row_ids_def)
    with ok have ok2: "store_ok st2" by simp
    from low r have fresh: "?i \<notin> row_ids st2" by auto
    from ok2 fresh have d: "distinct (map fst (store_rows ?st'))"
      by (simp add: store_ok_def row_ids_def)
    from ok2 n have e: "\<forall>j \<in> row_ids ?st'. j < next_identity ?st'"
      unfolding ids' by (auto simp: store_ok_def)
    from ok2 have f: "\<forall>ob' i. store_index ?st' ob' = Some i \<longrightarrow> i \<in> row_ids ?st'"
      unfolding ids' by (auto simp: store_ok_def)
    from d e f show ?thesis unfolding store_ok_def by blast
  qed
  from a b c show ?thesis unfolding store_grows_def by blast
qed

lemma save_grows:
  "(ObjectStore_save nm ob S = Inr (i, S') \<longrightarrow>
      storage_grows S S' \<and> store_index (stores S' nm) ob = Some i)"
  "(save_references rs S = Inr (ids, S') \<longrightarrow> storage_grows S S')"
proof (induction nm ob S and rs S arbitrary: i S' and ids S' rule: ObjectStore_save_save_references.induct)
  case (1 nm c t refs S)
  show ?case
  proof (cases "store_index (stores S nm) (SObject c t refs)")
    case (Some j)
    then show ?thesis by (auto simp: storage_grows_refl)
  next
    case None
    let ?i = "next_identity (stores S nm)"
    let ?S1 = "update_store S nm (\<lambda>st. st\<lparr>next_identity := Suc ?i\<rparr>)"
    show ?thesis
    proof (intro impI)
      assume sv: "ObjectStore_save nm (SObject c t refs) S = Inr (i, S')"
      with None obtain ids S2 where refs: "save_references refs ?S1 = Inr (ids, S2)"
        and i: "i = ?i"
        and S': "S' = update_store S2 nm
                        (\<lambda>st. st\<lparr>store_rows := store_rows st @ [(?i, ids)],
                                  store_index := (store_index st)(SObject c t refs \<mapsto> ?i),
                                  store_cache := (store_cache st)(?i \<mapsto> SObject c t refs)\<rparr>)"
        by (auto simp: Let_def split: sum.splits)
      from "1.IH" [OF None refl refl, of ids S2] refs have g12: "storage_grows ?S1 S2" by simp
      have "store_grows (stores S nm') (stores S' nm')" for nm'
      proof (cases "nm' = nm")
        case True
        from g12 have "store_grows (stores ?S1 nm) (stores S2 nm)" by (simp add: storage_grows_def)
        then have "store_grows ((stores S nm)\<lparr>next_identity := Suc ?i\<rparr>) (stores S2 nm)"
          by (simp add: update_store_simps)
        from store_write_grows [OF this, where ids = ids and ob = "SObject c t refs"] True S'
        show ?thesis by (simp add: update_store_simps)
      next
        case False
        from g12 have "store_grows (stores ?S1 nm') (stores S2 nm')" by (simp add: storage_grows_def)
        with False S' show ?thesis by (simp add: update_store_simps)
      qed
      moreover from g12 S' have "obj_store S' = obj_store S"
        by (simp add: storage_grows_def update_store_simps)
      ultimately have "storage_grows S S'" by (simp add: storage_grows_def)
      moreover from S' i have "store_index (stores S' nm) (SObject c t refs) = Some i"
        by (simp add: update_store_simps)
      ultimately show "storage_grows S S' \<and> store_index (stores S' nm) (SObject c t refs) = Some i"
        by simp
    qed
  qed
next
  case (2 S)
  show ?case by (simp add: storage_grows_refl)
next
  case (3 r rs S)
  show ?case
  proof (intro impI)
    assume sv: "save_references (r # rs) S = Inr (ids, S')"
    then obtain nm j S1 ids' where nm: "obj_store S (obj_class r) = Some nm"
      and one: "ObjectStore_save nm r S = Inr (j, S1)"
      and rest: "save_references rs S1 = Inr (ids', S')"
      by (auto split: option.splits sum.splits)
    from "3.IH"(1) [OF nm, of j S1] one have "storage_grows S S1" by simp
    moreover from "3.IH"(2) [OF nm one refl, of ids' S'] rest have "storage_grows S1 S'" by simp
    ultimately show "storage_grows S S'" by (rule storage_grows_trans)
  qed
qed
lemma one_row_per_identity:
  assumes "distinct (map f xs)" and "y \<in> f ` set xs"
  shows "length (filter (\<lambda>x. f x = y) xs) = 1"
  using assms
proof (induction xs)
  case Nil
  then show ?case by simp
next
  case (Cons x xs)
  show ?case
  proof (cases "f x = y")
    case True
    with Cons.prems(1) have "y \<notin> f ` set xs" by auto
    then have "filter (\<lambda>x. f x = y) xs = []" by (auto simp: filter_empty_conv)
    with True show ?thesis by simp
  next
    case False
    with Cons show ?thesis by auto
  qed
qed

lemma rows_of_one:
  assumes "store_ok st" and "store_index st ob = Some i"
  shows "length (rows_of st i) = 1"
proof -
  from assms have "distinct (map fst (store_rows st))" "i \<in> fst ` set (store_rows st)"
    by (auto simp: store_ok_def row_ids_def)
  then show ?thesis unfolding rows_of_def by (rule one_row_per_identity)
qed

lemma ObjectStore_save_again:
  assumes "store_index (stores S nm) ob = Some i"
  shows "ObjectStore_save nm ob S = Inr (i, S)"
  using assms by (cases ob) simp

lemma storage_grows_ok:
  assumes "storage_grows S S'" and "storage_ok S"
  shows "storage_ok S'"
  using assms by (auto simp: storage_grows_def storage_ok_def store_grows_def)

lemma save_succeeds:
  "(list_all (registered (obj_store S)) (obj_refs ob) \<longrightarrow>
      (\<exists>i S'. ObjectStore_save nm ob S = Inr (i, S')))"
  "(list_all (registered (obj_store S)) rs \<longrightarrow>
      (\<exists>ids S'. save_references rs S = Inr (ids, S')))"
proof (induction nm ob S and rs S rule: ObjectStore_save_save_references.induct)
  case (1 nm c t refs S)
  show ?case
  proof (cases "store_index (stores S nm) (SObject c t refs)")
    case (Some j)
    then show ?thesis by simp
  next
    case None
    let ?S1 = "update_store S nm (\<lambda>st. st\<lparr>next_identity := Suc (next_identity (stores S nm))\<rparr>)"
    show ?thesis
    proof (intro impI)
      assume "list_all (registered (obj_store S)) (obj_refs (SObject c t refs))"
      then have "list_all (registered (obj_store ?S1)) refs" by (simp add: update_store_simps)
      with "1.IH" [OF None refl refl]
      obtain ids S2 where "save_references refs ?S1 = Inr (ids, S2)" by blast
      with None show "\<exists>i S'. ObjectStore_save nm (SObject c t refs) S = Inr (i, S')"
        by (simp add: Let_def)
    qed
  qed
next
  case (2 S)
  show ?case by simp
next
  case (3 r rs S)
  show ?case
  proof (intro impI)
    assume a: "list_all (registered (obj_store S)) (r # rs)"
    then have rr: "registered (obj_store S) r" and rest: "list_all (registered (obj_store S)) rs"
      by simp_all
    from rr obtain nm where nm: "obj_store S (obj_class r) = Some nm"
      and sub: "list_all (registered (obj_store S)) (obj_refs r)" by (cases r) auto
    from "3.IH"(1) [OF nm] sub obtain j S1 where one: "ObjectStore_save nm r S = Inr (j, S1)"
      by blast
    from save_grows(1) [of nm r S j S1] one have "obj_store S1 = obj_store S"
      by (simp add: storage_grows_def)
    with rest have "list_all (registered (obj_store S1)) rs" by simp
    with "3.IH"(2) [OF nm one refl] obtain ids S2 where "save_references rs S1 = Inr (ids, S2)"
      by blast
    with nm one show "\<exists>ids S'. save_references (r # rs) S = Inr (ids, S')" by simp
  qed
qed

text \<open>
  What the modelled store gives. In a storage whose stores are in order, saving an object
  whose class, like the class of everything it refers to, has a store succeeds; the
  identity the store returns is the one its reverse index then reports; saving again
  returns the same identity and leaves the storage as it is, holding exactly one row with
  that identity. The storage's \<open>save\<close> has the same effect on the storage.
\<close>

lemma ObjectStore_save_idempotent:
  assumes ok: "storage_ok S"
    and cls: "obj_store S (obj_class ob) = Some nm"
    and reg: "registered (obj_store S) ob"
  shows "\<exists>i S1. ObjectStore_save nm ob S = Inr (i, S1)
              \<and> store_index (stores S1 nm) ob = Some i
              \<and> ObjectStore_save nm ob S1 = Inr (i, S1)
              \<and> length (rows_of (stores S1 nm) i) = 1
              \<and> snd (NetCDFPlus_save (AnObject ob) S) = S1
              \<and> snd (NetCDFPlus_save (AnObject ob) S1) = S1"
proof -
  from reg have "list_all (registered (obj_store S)) (obj_refs ob)" by (cases ob) simp
  with save_succeeds(1) [of S ob nm]
  obtain i S1 where sv: "ObjectStore_save nm ob S = Inr (i, S1)" by blast
  with cls have first: "snd (NetCDFPlus_save (AnObject ob) S) = S1" by simp
  from save_grows(1) [of nm ob S i S1] sv
  have g: "storage_grows S S1" and ix: "store_index (stores S1 nm) ob = Some i" by simp_all
  from g ok have ok1: "storage_ok S1" by (rule storage_grows_ok)
  then have "store_ok (stores S1 nm)" by (simp add: storage_ok_def)
  from rows_of_one [OF this ix] have one: "length (rows_of (stores S1 nm) i) = 1" .
  from ix have again: "ObjectStore_save nm ob S1 = Inr (i, S1)" by (rule ObjectStore_save_again)
  from g cls have "obj_store S1 (obj_class ob) = Some nm" by (simp add: storage_grows_def)
  with again have "snd (NetCDFPlus_save (AnObject ob) S1) = S1" by simp
  with first sv ix again one show ?thesis by blast
qed

text \<open>
  Whatever is saved, and whatever the store does, neither \<open>NetCDFPlus.save\<close> nor
  \<open>StorableObject.save\<close> ever returns an identity: each calls the store's \<open>save\<close> and
  drops what it returns.
\<close>

lemma NetCDFPlus_save_no_identity:
  "fst (NetCDFPlus_save x S) \<noteq> Inr (Some i)"
  "fst (save_parts ps S) \<noteq> Inr (Some i)"
proof (induction x S and ps S rule: NetCDFPlus_save_save_parts.induct)
  case (1 parts S)
  then show ?case by simp
next
  case (2 parts S)
  then show ?case by simp
next
  case (3 ob S)
  show ?case by (simp split: option.splits sum.splits prod.splits)
next
  case (4 S)
  show ?case by simp
next
  case (5 p ps S)
  show ?case
  proof (cases "NetCDFPlus_save p S")
    case (Pair r S')
    show ?thesis
    proof (cases r)
      case (Inl e)
      with Pair show ?thesis by simp
    next
      case (Inr v)
      from Pair Inr have "fst (save_parts ps S') \<noteq> Inr (Some i)" by (intro "5.IH"(2)) simp_all
      with Pair Inr show ?thesis by simp
    qed
  qed
qed

lemma StorableObject_save_no_identity:
  "fst (StorableObject_save ob target S) \<noteq> Inr (Some i)"
  by (simp add: StorableObject_save_def split: save_target.splits prod.splits sum.splits)

lemma example_storage_ok: "storage_ok example_storage"
  by (simp add: storage_ok_def example_storage_def store_ok_def empty_store_def row_ids_def)

text \<open>
  C1 at a sample that refers to two snapshots, in a storage with an empty store for each
  class. The store's save gives the sample the identity 0 and writes one row for it, and a
  second save leaves that one row: so far as the statement says. But the storage's
  \<open>save\<close> of the sample returns \<open>None\<close>, the first time and the second, and so does the
  sample's own \<open>save\<close>, where the statement (and the docstring of \<open>StorableObject.save\<close>)
  has the identity returned.
\<close>

theorem NetCDFPlus_save_drops_identity:
  "map_sum id fst (ObjectStore_save ''samples'' example_sample example_storage) = Inr 0
   \<and> map fst (store_rows (stores (snd (NetCDFPlus_save (AnObject example_sample) example_storage))
        ''samples'')) = [0]
   \<and> map fst (store_rows (stores (snd (NetCDFPlus_save (AnObject example_sample)
        (snd (NetCDFPlus_save (AnObject example_sample) example_storage)))) ''samples'')) = [0]
   \<and> fst (NetCDFPlus_save (AnObject example_sample) example_storage) = Inr None
   \<and> fst (NetCDFPlus_save (AnObject example_sample)
        (snd (NetCDFPlus_save (AnObject example_sample) example_storage))) = Inr None
   \<and> fst (StorableObject_save example_sample (TheStore ''samples'') example_storage) = Inr None"
  by (simp add: example_sample_def example_storage_def empty_store_def update_store_def Let_def
                StorableObject_save_def)

end
